theory Spec2Isabelle
  imports Main "HOL-Library.Sublist"
begin

section \<open>Universal parseJSON (src/parseJSON.ts)\<close>

text \<open>
  A shallow embedding of \<^verbatim>\<open>src/parseJSON.ts\<close>. JavaScript strings are modelled as
  \<^typ>\<open>string\<close>, that is lists of 8-bit characters: the model covers texts whose UTF-16
  code units are all below 0x100. On such texts code points and code units coincide, so
  \<^verbatim>\<open>Array.from(raw)\<close>, \<^verbatim>\<open>text[i]\<close> and \<^verbatim>\<open>text.slice\<close> all index the same list.
\<close>

subsection \<open>Characters\<close>

definition dquote :: char where
  "dquote = CHR 0x22"

definition squote :: char where
  "squote = CHR 0x27"

definition backslash :: char where
  "backslash = CHR 0x5C"

text \<open>
  The white space of \<^verbatim>\<open>String.prototype.trim\<close>, \<^verbatim>\<open>trimStart\<close> and of the regular
  expression class \<^verbatim>\<open>\s\<close> (ECMAScript WhiteSpace and LineTerminator), as far as it lies
  below 0x100: TAB, LF, VT, FF, CR, SP and NBSP.
\<close>

definition isSpace :: "char \<Rightarrow> bool" where
  "isSpace c \<longleftrightarrow> c \<in> {CHR 0x09, CHR 0x0A, CHR 0x0B, CHR 0x0C, CHR 0x0D, CHR 0x20, CHR 0xA0}"

text \<open>The regular expression class \<^verbatim>\<open>\d\<close>, which in ECMAScript is \<^verbatim>\<open>[0-9]\<close>.\<close>

definition isDigit :: "char \<Rightarrow> bool" where
  "isDigit c \<longleftrightarrow> c \<in> set ''0123456789''"

text \<open>The classes \<^verbatim>\<open>[A-Za-z_$]\<close> and \<^verbatim>\<open>[A-Za-z0-9_$]\<close> of line 93.\<close>

definition isIdentStart :: "char \<Rightarrow> bool" where
  "isIdentStart c \<longleftrightarrow>
     c \<in> set ''ABCDEFGHIJKLMNOPQRSTUVWXYZabcdefghijklmnopqrstuvwxyz_$''"

definition isIdentPart :: "char \<Rightarrow> bool" where
  "isIdentPart c \<longleftrightarrow> isIdentStart c \<or> isDigit c"

definition trimStart :: "string \<Rightarrow> string" where
  "trimStart s = dropWhile isSpace s"

definition trimEnd :: "string \<Rightarrow> string" where
  "trimEnd s = rev (dropWhile isSpace (rev s))"

definition trim :: "string \<Rightarrow> string" where
  "trim s = trimEnd (trimStart s)"

text \<open>\<^verbatim>\<open>s.startsWith(p)\<close>.\<close>

definition startsWith :: "string \<Rightarrow> string \<Rightarrow> bool" where
  "startsWith s p \<longleftrightarrow> prefix p s"

text \<open>\<^verbatim>\<open>s.indexOf(c)\<close> for a one-character needle; \<open>None\<close> stands for \<^verbatim>\<open>-1\<close>.\<close>

fun indexOf :: "string \<Rightarrow> char \<Rightarrow> nat option" where
  "indexOf [] c = None"
| "indexOf (x # xs) c = (if x = c then Some 0 else map_option Suc (indexOf xs c))"

subsection \<open>Classifier: \<^verbatim>\<open>looksLikeJSON\<close> (lines 18-22)\<close>

text \<open>
  \<^verbatim>\<open>/^-?\d/.test(t)\<close>: an optional minus sign, then a digit, anchored at the start.
  When the text starts with a minus sign not followed by a digit, backtracking retries
  without the sign and fails on the sign itself.
\<close>

fun testMinusDigit :: "string \<Rightarrow> bool" where
  "testMinusDigit [] = False"
| "testMinusDigit (c # cs) =
     (if c = CHR ''-'' then (case cs of [] \<Rightarrow> False | d # _ \<Rightarrow> isDigit d) else isDigit c)"

definition looksLikeJSON :: "string \<Rightarrow> bool" where
  "looksLikeJSON s =
     (let t = trimStart s in
        startsWith t ''{'' \<or> startsWith t ''['' \<or> startsWith t [dquote] \<or>
        t = ''true'' \<or> t = ''false'' \<or> t = ''null'' \<or> testMinusDigit t)"

subsection \<open>Normalizer: \<^verbatim>\<open>normalizeToJSON\<close> (lines 30-99)\<close>

text \<open>
  The scan of lines 35-90. The three functions are the three loops' positions: the outer
  loop (\<open>scanNormal\<close>), the inner loop of a single-quoted run (\<open>scanSingle\<close>, lines 42-67)
  and the inner loop of a double-quoted run (\<open>scanDouble\<close>, lines 72-85). The argument is
  \<^verbatim>\<open>chars\<close> from index \<^verbatim>\<open>i\<close> on, the result is what the loops append to \<^verbatim>\<open>out\<close>
  from there. A backslash that is the last character has \<^verbatim>\<open>chars[i + 1] ?? ""\<close> empty:
  the backslash alone is appended and the scan ends.
\<close>

fun scanNormal :: "string \<Rightarrow> string"
  and scanSingle :: "string \<Rightarrow> string"
  and scanDouble :: "string \<Rightarrow> string" where
  "scanNormal [] = []"
| "scanNormal (ch # rest) =
     (if ch = squote then dquote # scanSingle rest
      else if ch = dquote then dquote # scanDouble rest
      else ch # scanNormal rest)"
| "scanSingle [] = []"
| "scanSingle (c # rest) =
     (if c = backslash then
        (case rest of
           [] \<Rightarrow> [c]
         | next # rest' \<Rightarrow>
             if next = squote then squote # scanSingle rest'
             else if next = dquote then backslash # dquote # scanSingle rest'
             else c # next # scanSingle rest')
      else if c = dquote then backslash # dquote # scanSingle rest
      else if c = squote then dquote # scanNormal rest
      else c # scanSingle rest)"
| "scanDouble [] = []"
| "scanDouble (c # rest) =
     (if c = backslash then
        (case rest of
           [] \<Rightarrow> [c]
         | next # rest' \<Rightarrow> c # next # scanDouble rest')
      else if c = dquote then dquote # scanNormal rest
      else c # scanDouble rest)"

text \<open>
  One match attempt of \<^verbatim>\<open>/([{,]\s*)([A-Za-z_$][A-Za-z0-9_$]*)(\s*:)/\<close> at the head of the
  text: the three groups and the text after the match. Both \<^verbatim>\<open>\s*\<close> and the identifier
  are greedy, and no shorter choice can match where the longest fails: a shorter run of
  white space is followed by white space, which starts no identifier, and a shorter
  identifier is followed by an identifier character, which is neither white space nor a
  colon.
\<close>

definition matchKey :: "string \<Rightarrow> (string \<times> string \<times> string \<times> string) option" where
  "matchKey s =
     (case s of
        [] \<Rightarrow> None
      | d # r \<Rightarrow>
          if d = CHR ''{'' \<or> d = CHR '','' then
            (let ws = takeWhile isSpace r; r1 = dropWhile isSpace r in
               case r1 of
                 [] \<Rightarrow> None
               | c # _ \<Rightarrow>
                   if isIdentStart c then
                     (let ident = takeWhile isIdentPart r1; r2 = dropWhile isIdentPart r1;
                          ws2 = takeWhile isSpace r2; r3 = dropWhile isSpace r2 in
                        case r3 of
                          [] \<Rightarrow> None
                        | e # r4 \<Rightarrow>
                            if e = CHR '':'' then Some (d # ws, ident, ws2 @ [e], r4)
                            else None)
                   else None)
          else None)"

lemma matchKey_shorter:
  "matchKey s = Some (g1, g2, g3, rest) \<Longrightarrow> length rest < length s"
proof -
  have dw: "\<And>P (xs :: string). length (dropWhile P xs) \<le> length xs"
    by (simp add: length_dropWhile_le)
  assume m: "matchKey s = Some (g1, g2, g3, rest)"
  then obtain d r where s: "s = d # r"
    by (cases s) (auto simp: matchKey_def)
  from m s obtain e where
    r3: "dropWhile isSpace (dropWhile isIdentPart (dropWhile isSpace r)) = e # rest"
    by (auto simp: matchKey_def Let_def split: if_splits list.splits)
  have "length (e # rest) \<le> length (dropWhile isIdentPart (dropWhile isSpace r))"
    unfolding r3 [symmetric] by (rule dw)
  also have "\<dots> \<le> length (dropWhile isSpace r)" by (rule dw)
  also have "\<dots> \<le> length r" by (rule dw)
  finally show ?thesis using s by simp
qed

text \<open>
  \<^verbatim>\<open>out.replace(/.../g, '$1"$2"$3')\<close> of line 93: the matches are found from left to
  right, each attempt starting where the previous match ended.
\<close>

function quoteKeys :: "string \<Rightarrow> string" where
  "quoteKeys [] = []"
| "quoteKeys (c # cs) =
     (case matchKey (c # cs) of
        Some (g1, g2, g3, rest) \<Rightarrow> g1 @ dquote # g2 @ dquote # g3 @ quoteKeys rest
      | None \<Rightarrow> c # quoteKeys cs)"
  by pat_completeness auto
termination
  by (relation "measure length") (auto dest: matchKey_shorter)

text \<open>
  One match attempt of \<^verbatim>\<open>/,(\s*[}\]])/\<close> at the head of the text: the group and the
  text after the match.
\<close>

definition matchComma :: "string \<Rightarrow> (string \<times> string) option" where
  "matchComma s =
     (case s of
        [] \<Rightarrow> None
      | d # r \<Rightarrow>
          if d = CHR '','' then
            (let ws = takeWhile isSpace r; r1 = dropWhile isSpace r in
               case r1 of
                 [] \<Rightarrow> None
               | c # r2 \<Rightarrow>
                   if c = CHR ''}'' \<or> c = CHR '']'' then Some (ws @ [c], r2) else None)
          else None)"

lemma matchComma_shorter:
  "matchComma s = Some (g1, rest) \<Longrightarrow> length rest < length s"
proof -
  assume m: "matchComma s = Some (g1, rest)"
  then obtain d r where s: "s = d # r"
    by (cases s) (auto simp: matchComma_def)
  from m s obtain c where r1: "dropWhile isSpace r = c # rest"
    by (auto simp: matchComma_def Let_def split: if_splits list.splits)
  have "length (c # rest) \<le> length r"
    unfolding r1 [symmetric] by (simp add: length_dropWhile_le)
  then show ?thesis using s by simp
qed

text \<open>\<^verbatim>\<open>out.replace(/,(\s*[}\]])/g, "$1")\<close> of line 96.\<close>

function removeTrailingCommas :: "string \<Rightarrow> string" where
  "removeTrailingCommas [] = []"
| "removeTrailingCommas (c # cs) =
     (case matchComma (c # cs) of
        Some (g1, rest) \<Rightarrow> g1 @ removeTrailingCommas rest
      | None \<Rightarrow> c # removeTrailingCommas cs)"
  by pat_completeness auto
termination
  by (relation "measure length") (auto dest: matchComma_shorter)

definition normalizeToJSON :: "string \<Rightarrow> string" where
  "normalizeToJSON raw = removeTrailingCommas (quoteKeys (scanNormal raw))"

subsection \<open>BalancedExtractor: \<^verbatim>\<open>extractBalanced\<close> (lines 105-131)\<close>

text \<open>
  The loop of lines 115-129 over the characters from index \<^verbatim>\<open>i\<close> on, with the loop's
  variables; the result is the index at which line 127 returns, \<open>None\<close> when the loop
  runs to the end. \<^verbatim>\<open>open\<close> and \<^verbatim>\<open>close\<close> are strings in the source, compared with
  the one-character string \<^verbatim>\<open>text[i]\<close>. The start index is a natural number: the
  callers pass indices found in the text.
\<close>

fun balancedLoop :: "string \<Rightarrow> string \<Rightarrow> string \<Rightarrow> int \<Rightarrow> bool \<Rightarrow> bool \<Rightarrow> nat \<Rightarrow> nat option" where
  "balancedLoop opn cls [] depth inString escape i = None"
| "balancedLoop opn cls (ch # rest) depth inString escape i =
     (if escape then balancedLoop opn cls rest depth inString False (i + 1)
      else if ch = backslash then balancedLoop opn cls rest depth inString True (i + 1)
      else if ch = dquote \<and> \<not> inString then balancedLoop opn cls rest depth True escape (i + 1)
      else if ch = dquote \<and> inString then balancedLoop opn cls rest depth False escape (i + 1)
      else if inString then balancedLoop opn cls rest depth inString escape (i + 1)
      else if [ch] = opn then balancedLoop opn cls rest (depth + 1) inString escape (i + 1)
      else if [ch] = cls then
        (if depth - 1 = 0 then Some i
         else balancedLoop opn cls rest (depth - 1) inString escape (i + 1))
      else balancedLoop opn cls rest depth inString escape (i + 1))"

text \<open>\<^verbatim>\<open>text.slice(a, b)\<close> for indices \<open>0 \<le> a\<close> and \<open>0 \<le> b\<close>.\<close>

definition slice :: "string \<Rightarrow> nat \<Rightarrow> nat \<Rightarrow> string" where
  "slice text a b = take (b - a) (drop a text)"

definition extractBalanced :: "string \<Rightarrow> nat \<Rightarrow> string \<Rightarrow> string \<Rightarrow> string option" where
  "extractBalanced text start opn cls =
     (case balancedLoop opn cls (drop start text) 0 False False start of
        None \<Rightarrow> None
      | Some i \<Rightarrow> Some (slice text start (i + 1)))"

subsection \<open>Values\<close>

text \<open>
  \<^verbatim>\<open>JSONValue\<close> (lines 7-13). A number is kept as the numeral that denotes it: the model
  does not compute IEEE doubles, and equal numerals denote equal numbers. An object is
  the list of its own properties in the order \<^verbatim>\<open>Object.keys\<close> enumerates them; a
  JavaScript object has one property per key, so the keys of a list that stands for one
  are distinct.
\<close>

datatype json =
    JNull
  | JBool bool
  | JNum string
  | JStr string
  | JArr "json list"
  | JObj "(string \<times> json) list"

text \<open>
  \<^verbatim>\<open>JSON.parse\<close> throws a \<^verbatim>\<open>SyntaxError\<close>; nothing in the file catches it.
  \<open>OutsideModel\<close> is no error of the program: it is the answer of the model of the
  decoder below on a text that names a character the strings of the model do not have,
  and it says nothing about what the program does there.
\<close>

datatype error = SyntaxError | OutsideModel

subsection \<open>ExtractionStrategy: \<^verbatim>\<open>extractAndParse\<close> (lines 137-178)\<close>

text \<open>
  The strict decoder \<^verbatim>\<open>JSON.parse\<close> belongs to the platform, not to the file; the
  functions that call it take it as the parameter \<open>parse\<close>. A \<^verbatim>\<open>null\<close> result is
  \<open>Inr JNull\<close>, a thrown error is \<open>Inl\<close>.
\<close>

text \<open>
  Lines 150-152: the index after the white space that follows the \<^verbatim>\<open>=\<close> at \<open>eqIdx\<close>,
  and the character there (\<open>None\<close> for \<^verbatim>\<open>undefined\<close>, past the end).
\<close>

definition skipSpaces :: "string \<Rightarrow> nat \<Rightarrow> nat" where
  "skipSpaces trimmed eqIdx =
     eqIdx + 1 + length (takeWhile isSpace (drop (eqIdx + 1) trimmed))"

definition charAt :: "string \<Rightarrow> nat \<Rightarrow> char option" where
  "charAt s i = (if i < length s then Some (s ! i) else None)"

text \<open>Strategy 2 (lines 148-162): the block it extracts, if any.\<close>

definition assignmentBlock :: "string \<Rightarrow> string option" where
  "assignmentBlock trimmed =
     (case indexOf trimmed CHR ''='' of
        None \<Rightarrow> None
      | Some eqIdx \<Rightarrow>
          (let jsonStart = skipSpaces trimmed eqIdx;
               opener = charAt trimmed jsonStart in
             if opener = Some CHR ''{'' \<or> opener = Some CHR ''['' then
               (let closer = (if opener = Some CHR ''{'' then ''}'' else '']'') in
                  extractBalanced trimmed jsonStart [the opener] closer)
             else None))"

text \<open>One round of the loop of strategy 3 (lines 165-175): the block it extracts, if any.\<close>

definition bracketBlock :: "string \<Rightarrow> char \<Rightarrow> char \<Rightarrow> string option" where
  "bracketBlock trimmed opn cls =
     (case indexOf trimmed opn of
        None \<Rightarrow> None
      | Some idx \<Rightarrow> extractBalanced trimmed idx [opn] [cls])"

definition extractAndParse :: "(string \<Rightarrow> error + json) \<Rightarrow> string \<Rightarrow> error + json" where
  "extractAndParse parse raw =
     (let trimmed = trim raw in
        if looksLikeJSON trimmed then parse (normalizeToJSON trimmed)
        else
          case assignmentBlock trimmed of
            Some block \<Rightarrow> parse (normalizeToJSON block)
          | None \<Rightarrow>
              (case bracketBlock trimmed CHR ''{'' CHR ''}'' of
                 Some block \<Rightarrow> parse (normalizeToJSON block)
               | None \<Rightarrow>
                   (case bracketBlock trimmed CHR ''['' CHR '']'' of
                      Some block \<Rightarrow> parse (normalizeToJSON block)
                    | None \<Rightarrow> Inr JNull)))"

subsection \<open>KeySearch: \<^verbatim>\<open>findByKey\<close> (lines 183-197)\<close>

text \<open>
  \<^verbatim>\<open>results\<close> is the array the calls push to; the function returns it as it is after
  the call. \<^verbatim>\<open>Object.keys(obj)\<close> with \<^verbatim>\<open>obj[k]\<close> visits the values of the own
  properties in their order.
\<close>

fun findByKey :: "json \<Rightarrow> string \<Rightarrow> json list \<Rightarrow> json list" where
  "findByKey (JArr items) key results =
     fold (\<lambda>item rs. findByKey item key rs) items results"
| "findByKey (JObj obj) key results =
     fold (\<lambda>e rs. findByKey (snd e) key rs) obj
       (if key \<in> fst ` set obj then results @ [JObj obj] else results)"
| "findByKey node key results = results"

subsection \<open>Public entry point: \<^verbatim>\<open>parseJSON\<close> (lines 211-232)\<close>

text \<open>
  \<^verbatim>\<open>rawData\<close> is any JavaScript value a caller can pass: \<open>None\<close> is \<^verbatim>\<open>undefined\<close>,
  \<open>Some (JStr s)\<close> a string, \<open>Some (JArr _)\<close> and \<open>Some (JObj _)\<close> the values whose
  \<^verbatim>\<open>typeof\<close> is \<^verbatim>\<open>"object"\<close> and that are not \<^verbatim>\<open>null\<close>. \<^verbatim>\<open>nodeKey\<close> is \<open>None\<close> when it
  is \<^verbatim>\<open>undefined\<close>.
\<close>

text \<open>Lines 215-221: the value of \<^verbatim>\<open>parsed\<close> at line 223.\<close>

definition parsedOf :: "(string \<Rightarrow> error + json) \<Rightarrow> json option \<Rightarrow> error + json" where
  "parsedOf parse rawData =
     (case rawData of
        Some (JArr xs) \<Rightarrow> Inr (JArr xs)
      | Some (JObj obj) \<Rightarrow> Inr (JObj obj)
      | Some (JStr s) \<Rightarrow> extractAndParse parse (trim s)
      | _ \<Rightarrow> Inr JNull)"

definition parseJSON :: "(string \<Rightarrow> error + json) \<Rightarrow> json option \<Rightarrow> string option \<Rightarrow> error + json" where
  "parseJSON parse rawData nodeKey =
     (case parsedOf parse rawData of
        Inl e \<Rightarrow> Inl e
      | Inr parsed \<Rightarrow>
          (case nodeKey of
             None \<Rightarrow> Inr parsed
           | Some key \<Rightarrow>
               if parsed = JNull then Inr (JArr [])
               else
                 (let results = findByKey parsed key [] in
                    if length results = 0 then Inr (JArr [])
                    else if length results = 1 then Inr (results ! 0)
                    else Inr (JArr results))))"

subsection \<open>The strict decoder\<close>

text \<open>
  A model of the platform's \<^verbatim>\<open>JSON.parse\<close> (ECMA-262, JSON.parse with the grammar of
  ECMA-404) on texts of 8-bit characters, for the properties that name the value some
  text decodes to. The text is cut into tokens, then the tokens are parsed with an explicit
  stack of the arrays and objects under construction.
\<close>

datatype token = TPunct char | TString string | TNumber string | TTrue | TFalse | TNull

text \<open>JSON white space: space, TAB, LF and CR only.\<close>

definition isJsonSpace :: "char \<Rightarrow> bool" where
  "isJsonSpace c \<longleftrightarrow> c \<in> {CHR 0x20, CHR 0x09, CHR 0x0A, CHR 0x0D}"

definition isHexDigit :: "char \<Rightarrow> bool" where
  "isHexDigit c \<longleftrightarrow> c \<in> set ''0123456789abcdefABCDEF''"

definition hexValue :: "char \<Rightarrow> nat" where
  "hexValue c =
     (if isDigit c then of_char c - 48
      else if c \<in> set ''abcdef'' then of_char c - 87
      else of_char c - 55)"

text \<open>The character a one-letter escape stands for.\<close>

definition unescape :: "char \<Rightarrow> char option" where
  "unescape e =
     (if e = dquote then Some dquote
      else if e = backslash then Some backslash
      else if e = CHR ''/'' then Some CHR ''/''
      else if e = CHR ''b'' then Some (CHR 0x08)
      else if e = CHR ''f'' then Some (CHR 0x0C)
      else if e = CHR ''n'' then Some (CHR 0x0A)
      else if e = CHR ''r'' then Some (CHR 0x0D)
      else if e = CHR ''t'' then Some (CHR 0x09)
      else None)"

text \<open>
  The rest of a string token after its opening quote: the string it denotes and the text
  after the closing quote. Control characters below 0x20 are not allowed unescaped. An
  escape \<^verbatim>\<open>\uXXXX\<close> of a code unit from 0x100 on is legal JSON, but it denotes a
  character the 8-bit strings of this model do not have: there the result is \<open>None\<close> as
  well, and \<open>JSON_parse\<close> below tells the two cases apart.
\<close>

fun lexString :: "string \<Rightarrow> (string \<times> string) option" where
  "lexString [] = None"
| "lexString (c # cs) =
     (if c = dquote then Some ([], cs)
      else if c = backslash then
        (case cs of
           [] \<Rightarrow> None
         | e # cs' \<Rightarrow>
             if e = CHR ''u'' then
               (case cs' of
                  h1 # h2 # h3 # h4 # cs'' \<Rightarrow>
                    if isHexDigit h1 \<and> isHexDigit h2 \<and> isHexDigit h3 \<and> isHexDigit h4
                       \<and> hexValue h1 = 0 \<and> hexValue h2 = 0 then
                      (case lexString cs'' of
                         None \<Rightarrow> None
                       | Some (str, rest) \<Rightarrow>
                           Some (char_of (16 * hexValue h3 + hexValue h4) # str, rest))
                    else None
                | _ \<Rightarrow> None)
             else
               (case unescape e of
                  None \<Rightarrow> None
                | Some ch \<Rightarrow>
                    (case lexString cs' of
                       None \<Rightarrow> None
                     | Some (str, rest) \<Rightarrow> Some (ch # str, rest))))
      else if (of_char c :: nat) < 32 then None
      else
        (case lexString cs of
           None \<Rightarrow> None
         | Some (str, rest) \<Rightarrow> Some (c # str, rest)))"

lemma lexString_shorter: "lexString cs = Some (str, rest) \<Longrightarrow> length rest \<le> length cs"
proof (induction "length cs" arbitrary: cs str rest rule: less_induct)
  case less
  show ?case
  proof (cases cs)
    case Nil
    with less.prems show ?thesis by simp
  next
    case (Cons c cs')
    with less.prems
    have "rest = cs' \<or> (\<exists>cs'' str'. lexString cs'' = Some (str', rest) \<and> length cs'' < length cs)"
      by (auto split: if_splits list.splits option.splits)
    then show ?thesis
    proof
      assume "rest = cs'"
      with Cons show ?thesis by simp
    next
      assume "\<exists>cs'' str'. lexString cs'' = Some (str', rest) \<and> length cs'' < length cs"
      then obtain cs'' str' where "lexString cs'' = Some (str', rest)" "length cs'' < length cs"
        by blast
      with less.hyps [of cs'' str' rest] show ?thesis by simp
    qed
  qed
qed

text \<open>
  The number grammar: \<^verbatim>\<open>-? (0 | [1-9][0-9]*) (. [0-9]+)? ([eE] [+-]? [0-9]+)?\<close>.
\<close>

definition numberInt :: "string \<Rightarrow> string option" where
  "numberInt s =
     (case s of
        [] \<Rightarrow> None
      | d # r \<Rightarrow>
          if d = CHR ''0'' then Some r
          else if isDigit d then Some (dropWhile isDigit r)
          else None)"

definition numberFrac :: "string \<Rightarrow> string option" where
  "numberFrac s =
     (case s of
        [] \<Rightarrow> Some []
      | d # r \<Rightarrow>
          if d = CHR ''.'' then
            (case r of
               [] \<Rightarrow> None
             | f # _ \<Rightarrow> if isDigit f then Some (dropWhile isDigit r) else None)
          else Some s)"

definition numberExp :: "string \<Rightarrow> bool" where
  "numberExp s =
     (case s of
        [] \<Rightarrow> True
      | e # r \<Rightarrow>
          if e = CHR ''e'' \<or> e = CHR ''E'' then
            (let r' = (case r of
                         [] \<Rightarrow> r
                       | g # r'' \<Rightarrow> if g = CHR ''+'' \<or> g = CHR ''-'' then r'' else r) in
               r' \<noteq> [] \<and> list_all isDigit r')
          else False)"

definition validNumber :: "string \<Rightarrow> bool" where
  "validNumber s =
     (let s1 = (case s of [] \<Rightarrow> s | m # r \<Rightarrow> if m = CHR ''-'' then r else s) in
        case numberInt s1 of
          None \<Rightarrow> False
        | Some s2 \<Rightarrow>
            (case numberFrac s2 of
               None \<Rightarrow> False
             | Some s3 \<Rightarrow> numberExp s3))"

definition isNumberChar :: "char \<Rightarrow> bool" where
  "isNumberChar c \<longleftrightarrow> isDigit c \<or> c \<in> set ''+-.eE''"

text \<open>
  A number token is the longest run of characters that occur in numbers: no character
  of that kind may follow a number in a JSON text, so the run is a number or the text is
  not JSON.
\<close>

function tokenize :: "string \<Rightarrow> token list option" where
  "tokenize [] = Some []"
| "tokenize (c # cs) =
     (if isJsonSpace c then tokenize cs
      else if c \<in> set ''{}[],:'' then map_option (Cons (TPunct c)) (tokenize cs)
      else if c = dquote then
        (case lexString cs of
           None \<Rightarrow> None
         | Some (str, rest) \<Rightarrow> map_option (Cons (TString str)) (tokenize rest))
      else if c = CHR ''-'' \<or> isDigit c then
        (let num = c # takeWhile isNumberChar cs in
           if validNumber num then
             map_option (Cons (TNumber num)) (tokenize (dropWhile isNumberChar cs))
           else None)
      else if prefix ''true'' (c # cs) then map_option (Cons TTrue) (tokenize (drop 3 cs))
      else if prefix ''false'' (c # cs) then map_option (Cons TFalse) (tokenize (drop 4 cs))
      else if prefix ''null'' (c # cs) then map_option (Cons TNull) (tokenize (drop 3 cs))
      else None)"
  by pat_completeness auto
termination
proof (relation "measure length")
  fix c cs x2 x y
  assume "lexString cs = Some x2" "(x, y) = x2"
  then have "lexString cs = Some (x, y)" by simp
  then have "length y \<le> length cs" by (rule lexString_shorter)
  then show "(y, c # cs) \<in> measure length" by simp
qed (simp_all add: length_dropWhile_le le_imp_less_Suc)

text \<open>
  Property order: \<^verbatim>\<open>JSON.parse\<close> creates each member with CreateDataProperty, and the
  own keys of an object are enumerated with the array indices first, in ascending
  numeric order, then the other keys in the order of their creation. Storing to a key
  that exists replaces the value and keeps the place.
\<close>

definition digitsValue :: "string \<Rightarrow> int" where
  "digitsValue s = foldl (\<lambda>n c. 10 * n + (of_char c - 48)) 0 s"

definition isArrayIndex :: "string \<Rightarrow> bool" where
  "isArrayIndex k \<longleftrightarrow>
     k \<noteq> [] \<and> list_all isDigit k \<and> (k = ''0'' \<or> hd k \<noteq> CHR ''0'') \<and>
     length k \<le> 10 \<and> digitsValue k < 4294967295"

fun insertIndex :: "string \<Rightarrow> json \<Rightarrow> (string \<times> json) list \<Rightarrow> (string \<times> json) list" where
  "insertIndex k v [] = [(k, v)]"
| "insertIndex k v (p # ps) =
     (if isArrayIndex (fst p) \<and> digitsValue (fst p) < digitsValue k
      then p # insertIndex k v ps
      else (k, v) # p # ps)"

fun replaceValue :: "string \<Rightarrow> json \<Rightarrow> (string \<times> json) list \<Rightarrow> (string \<times> json) list" where
  "replaceValue k v [] = []"
| "replaceValue k v (p # ps) =
     (if fst p = k then (k, v) # ps else p # replaceValue k v ps)"

definition setProperty :: "(string \<times> json) list \<Rightarrow> string \<Rightarrow> json \<Rightarrow> (string \<times> json) list" where
  "setProperty obj k v =
     (if k \<in> fst ` set obj then replaceValue k v obj
      else if isArrayIndex k then insertIndex k v obj
      else obj @ [(k, v)])"

text \<open>
  The parser. A frame is an array with the elements read so far, or an object with the
  properties set so far and the key whose value is being read. \<open>parseValue\<close> reads the
  start of a value, \<open>parseAfter\<close> continues after a complete value.
\<close>

datatype frame = ArrayFrame "json list" | ObjectFrame "(string \<times> json) list" string

text \<open>The key and the colon that start a member of an object, and the tokens after them.\<close>

definition memberKey :: "token list \<Rightarrow> (string \<times> token list) option" where
  "memberKey ts =
     (case ts of
        [] \<Rightarrow> None
      | t1 # ts1 \<Rightarrow>
          (case t1 of
             TString k \<Rightarrow>
               (case ts1 of
                  [] \<Rightarrow> None
                | t2 # ts2 \<Rightarrow> if t2 = TPunct CHR '':'' then Some (k, ts2) else None)
           | _ \<Rightarrow> None))"

lemma memberKey_shorter: "memberKey ts = Some (k, ts') \<Longrightarrow> length ts' < length ts"
  by (auto simp: memberKey_def split: list.splits token.splits if_splits)

function parseValue :: "frame list \<Rightarrow> token list \<Rightarrow> error + json"
  and parseAfter :: "json \<Rightarrow> frame list \<Rightarrow> token list \<Rightarrow> error + json" where
  "parseValue stack [] = Inl SyntaxError"
| "parseValue stack (t # ts) =
     (case t of
        TNull \<Rightarrow> parseAfter JNull stack ts
      | TTrue \<Rightarrow> parseAfter (JBool True) stack ts
      | TFalse \<Rightarrow> parseAfter (JBool False) stack ts
      | TNumber n \<Rightarrow> parseAfter (JNum n) stack ts
      | TString s \<Rightarrow> parseAfter (JStr s) stack ts
      | TPunct c \<Rightarrow>
          if c = CHR ''['' then
            (if ts \<noteq> [] \<and> hd ts = TPunct CHR '']'' then parseAfter (JArr []) stack (tl ts)
             else parseValue (ArrayFrame [] # stack) ts)
          else if c = CHR ''{'' then
            (if ts \<noteq> [] \<and> hd ts = TPunct CHR ''}'' then parseAfter (JObj []) stack (tl ts)
             else
               (case memberKey ts of
                  None \<Rightarrow> Inl SyntaxError
                | Some (k, ts') \<Rightarrow> parseValue (ObjectFrame [] k # stack) ts'))
          else Inl SyntaxError)"
| "parseAfter v [] ts = (if ts = [] then Inr v else Inl SyntaxError)"
| "parseAfter v (f # stack) [] = Inl SyntaxError"
| "parseAfter v (f # stack) (t # ts) =
     (case f of
        ArrayFrame xs \<Rightarrow>
          if t = TPunct CHR '','' then parseValue (ArrayFrame (xs @ [v]) # stack) ts
          else if t = TPunct CHR '']'' then parseAfter (JArr (xs @ [v])) stack ts
          else Inl SyntaxError
      | ObjectFrame obj k \<Rightarrow>
          if t = TPunct CHR '','' then
            (case memberKey ts of
               None \<Rightarrow> Inl SyntaxError
             | Some (k', ts') \<Rightarrow> parseValue (ObjectFrame (setProperty obj k v) k' # stack) ts')
          else if t = TPunct CHR ''}'' then parseAfter (JObj (setProperty obj k v)) stack ts
          else Inl SyntaxError)"
  by pat_completeness auto
termination
  by (relation "measure (\<lambda>x. case x of Inl (_, ts) \<Rightarrow> length ts | Inr (_, _, ts) \<Rightarrow> length ts)")
     (auto dest: memberKey_shorter simp: less_Suc_eq_le)

text \<open>
  A text with an escape \<^verbatim>\<open>\uXXXX\<close> of a code unit from 0x100 on, anywhere: such a text
  can fail to be cut into tokens although it is JSON.
\<close>

fun wideEscape :: "string \<Rightarrow> bool" where
  "wideEscape [] = False"
| "wideEscape (c # cs) =
     ((c = backslash \<and>
       (case cs of
          u # h1 # h2 # h3 # h4 # _ \<Rightarrow>
            u = CHR ''u'' \<and> isHexDigit h1 \<and> isHexDigit h2 \<and> isHexDigit h3 \<and> isHexDigit h4 \<and>
            (hexValue h1 \<noteq> 0 \<or> hexValue h2 \<noteq> 0)
        | _ \<Rightarrow> False))
      \<or> wideEscape cs)"

text \<open>
  The decoder. A text that cannot be cut into tokens is rejected with a
  \<^verbatim>\<open>SyntaxError\<close>, unless it has an escape of a character outside the model: then the
  model gives no verdict.
\<close>

definition JSON_parse :: "string \<Rightarrow> error + json" where
  "JSON_parse text =
     (case tokenize text of
        None \<Rightarrow> Inl (if wideEscape text then OutsideModel else SyntaxError)
      | Some ts \<Rightarrow> parseValue [] ts)"

subsection \<open>Notions used to state the properties\<close>

text \<open>
  All the values inside a value, itself included, in pre-order: an array before its
  elements in index order, an object before the values of its properties in their order.
\<close>

fun subvalues :: "json \<Rightarrow> json list" where
  "subvalues (JArr items) = JArr items # concat (map subvalues items)"
| "subvalues (JObj obj) = JObj obj # concat (map (\<lambda>e. subvalues (snd e)) obj)"
| "subvalues v = [v]"

text \<open>A mapping that owns the key; arrays and scalars own nothing.\<close>

definition ownsKey :: "string \<Rightarrow> json \<Rightarrow> bool" where
  "ownsKey key v = (case v of JObj obj \<Rightarrow> key \<in> fst ` set obj | _ \<Rightarrow> False)"

text \<open>The mappings inside a value that own the key, in pre-order.\<close>

definition matchingMappings :: "string \<Rightarrow> json \<Rightarrow> json list" where
  "matchingMappings key v = filter (ownsKey key) (subvalues v)"

text \<open>
  The Classifier as the specification words it: the text begins with \<^verbatim>\<open>{\<close>, \<^verbatim>\<open>[\<close>,
  \<^verbatim>\<open>"\<close>, the literal \<^verbatim>\<open>true\<close>, \<^verbatim>\<open>false\<close> or \<^verbatim>\<open>null\<close>, or with a digit after an
  optional minus sign.
\<close>

definition beginsLikeJSON :: "string \<Rightarrow> bool" where
  "beginsLikeJSON s \<longleftrightarrow>
     startsWith s ''{'' \<or> startsWith s ''['' \<or> startsWith s [dquote] \<or>
     startsWith s ''true'' \<or> startsWith s ''false'' \<or> startsWith s ''null'' \<or>
     (case s of [] \<Rightarrow> False | d # _ \<Rightarrow> isDigit d) \<or>
     (case s of m # d # _ \<Rightarrow> m = CHR ''-'' \<and> isDigit d | _ \<Rightarrow> False)"

text \<open>
  Depth counting as the specification words it. \<open>counted\<close> gives each character its
  contribution to the depth: a character after a backslash, a backslash, a double quote
  and a character inside a quoted string count nothing; outside strings the opening
  delimiter counts \<open>1\<close> and the closing delimiter \<open>- 1\<close>. \<open>depths\<close> lists the depth
  after each character, \<open>closingIndex\<close> is the first closing delimiter after which the
  depth is zero, and \<open>balancedSpec\<close> the text from the start through that delimiter.
\<close>

fun counted :: "string \<Rightarrow> string \<Rightarrow> string \<Rightarrow> bool \<Rightarrow> bool \<Rightarrow> int list" where
  "counted opn cls [] inString escape = []"
| "counted opn cls (ch # rest) inString escape =
     (if escape then 0 # counted opn cls rest inString False
      else if ch = backslash then 0 # counted opn cls rest inString True
      else if ch = dquote then 0 # counted opn cls rest (\<not> inString) False
      else if inString then 0 # counted opn cls rest inString False
      else (if [ch] = opn then 1 else if [ch] = cls then - 1 else 0)
             # counted opn cls rest inString False)"

definition closingIndex :: "string \<Rightarrow> string \<Rightarrow> string \<Rightarrow> nat option" where
  "closingIndex opn cls s =
     (let ds = counted opn cls s False False in
        find (\<lambda>n. ds ! n = - 1 \<and> sum_list (take (Suc n) ds) = 0) [0..<length s])"

definition balancedSpec :: "string \<Rightarrow> nat \<Rightarrow> string \<Rightarrow> string \<Rightarrow> string option" where
  "balancedSpec text start opn cls =
     map_option (\<lambda>n. take (Suc n) (drop start text)) (closingIndex opn cls (drop start text))"

text \<open>
  The inside of a double-quoted run: no double quote except after a backslash, and no
  backslash without a character after it.
\<close>

fun quotedBody :: "string \<Rightarrow> bool" where
  "quotedBody [] = True"
| "quotedBody (c # cs) =
     (if c = backslash then (case cs of [] \<Rightarrow> False | _ # cs' \<Rightarrow> quotedBody cs')
      else c \<noteq> dquote \<and> quotedBody cs)"

definition depths :: "string \<Rightarrow> string \<Rightarrow> string \<Rightarrow> int list" where
  "depths opn cls s =
     (let ds = counted opn cls s False False in
        map (\<lambda>n. sum_list (take (Suc n) ds)) [0..<length s])"

text \<open>
  The block the three strategies of \<open>extractAndParse\<close> locate in a trimmed text, in
  their order: the whole text when the Classifier accepts it, else the block after the
  first \<^verbatim>\<open>=\<close>, else the block at the first \<^verbatim>\<open>{\<close>, else the block at the first \<^verbatim>\<open>[\<close>;
  \<open>None\<close> when no strategy locates one.
\<close>

definition locateBlock :: "string \<Rightarrow> string option" where
  "locateBlock trimmed =
     (if looksLikeJSON trimmed then Some trimmed
      else
        case assignmentBlock trimmed of
          Some block \<Rightarrow> Some block
        | None \<Rightarrow>
            (case bracketBlock trimmed CHR ''{'' CHR ''}'' of
               Some block \<Rightarrow> Some block
             | None \<Rightarrow> bracketBlock trimmed CHR ''['' CHR '']''))"

text \<open>
  The characters the body of a single-quoted string denotes, where JavaScript and JSON
  read it alike: plain characters from 0x20 on, a bare double quote, \<^verbatim>\<open>\'\<close>, the
  one-letter escapes of JSON (\<^verbatim>\<open>\"\<close>, \<^verbatim>\<open>\\\<close>, \<^verbatim>\<open>\/\<close>, \<^verbatim>\<open>\b\<close>, \<^verbatim>\<open>\f\<close>, \<^verbatim>\<open>\n\<close>,
  \<^verbatim>\<open>\r\<close>, \<^verbatim>\<open>\t\<close>) and \<^verbatim>\<open>\u00XX\<close>, the escape of a code unit below 0x100. \<open>None\<close> for
  a body with an unescaped single quote, a backslash at its end, a control character or
  any other escape; \<open>None\<close> also for an escape \<^verbatim>\<open>\uXXXX\<close> of a code unit from 0x100 on,
  where JavaScript and JSON agree on a character that the 8-bit strings of the model do
  not have.
\<close>

fun singleQuotedValue :: "string \<Rightarrow> string option" where
  "singleQuotedValue [] = Some []"
| "singleQuotedValue (c # cs) =
     (if c = backslash then
        (case cs of
           [] \<Rightarrow> None
         | e # cs' \<Rightarrow>
             if e = squote then map_option (Cons squote) (singleQuotedValue cs')
             else if e = CHR ''u'' then
               (case cs' of
                  h1 # h2 # h3 # h4 # cs'' \<Rightarrow>
                    if isHexDigit h1 \<and> isHexDigit h2 \<and> isHexDigit h3 \<and> isHexDigit h4
                       \<and> hexValue h1 = 0 \<and> hexValue h2 = 0 then
                      map_option (Cons (char_of (16 * hexValue h3 + hexValue h4)))
                        (singleQuotedValue cs'')
                    else None
                | _ \<Rightarrow> None)
             else
               (case unescape e of
                  None \<Rightarrow> None
                | Some ch \<Rightarrow> map_option (Cons ch) (singleQuotedValue cs')))
      else if c = squote then None
      else if (of_char c :: nat) < 32 then None
      else map_option (Cons c) (singleQuotedValue cs))"

text \<open>
  The body of the double-quoted run for the body of a single-quoted run, as the
  specification words the conversion: \<^verbatim>\<open>\'\<close> becomes \<^verbatim>\<open>'\<close>, a bare \<^verbatim>\<open>"\<close> becomes
  \<^verbatim>\<open>\"\<close>, every other backslash pair and every other character is copied.
\<close>

fun toDoubleQuoted :: "string \<Rightarrow> string" where
  "toDoubleQuoted [] = []"
| "toDoubleQuoted (c # cs) =
     (if c = backslash then
        (case cs of
           [] \<Rightarrow> [c]
         | e # cs' \<Rightarrow>
             if e = squote then squote # toDoubleQuoted cs'
             else backslash # e # toDoubleQuoted cs')
      else if c = dquote then backslash # dquote # toDoubleQuoted cs
      else c # toDoubleQuoted cs)"

text \<open>
  A text that the two rewrites of the Normalizer (lines 93 and 96) leave as it is.
\<close>

definition rewritesKeep :: "string \<Rightarrow> bool" where
  "rewritesKeep s \<longleftrightarrow> removeTrailingCommas (quoteKeys s) = s"

section \<open>Properties\<close>

subsection \<open>Key search and the result policy\<close>

lemma fold_append_results:
  assumes "\<And>x rs. x \<in> set xs \<Longrightarrow> f x rs = rs @ g x"
  shows "fold f xs rs = rs @ concat (map g xs)"
  using assms by (induction xs arbitrary: rs) simp_all

lemma matchingMappings_JArr:
  "matchingMappings key (JArr items) = concat (map (matchingMappings key) items)"
proof -
  have "matchingMappings key = (\<lambda>v. filter (ownsKey key) (subvalues v))"
    by (rule ext) (simp add: matchingMappings_def)
  then show ?thesis
    by (simp add: ownsKey_def filter_concat comp_def)
qed

lemma matchingMappings_JObj:
  "matchingMappings key (JObj obj) =
     (if key \<in> fst ` set obj then [JObj obj] else []) @
     concat (map (\<lambda>e. matchingMappings key (snd e)) obj)"
  by (simp add: matchingMappings_def ownsKey_def filter_concat comp_def)

lemma findByKey_matchingMappings:
  "findByKey v key results = results @ matchingMappings key v"
proof (induction v arbitrary: results)
  case (JArr items)
  have "fold (\<lambda>item rs. findByKey item key rs) items results =
        results @ concat (map (matchingMappings key) items)"
    by (rule fold_append_results) (rule JArr.IH)
  then show ?case
    by (simp add: matchingMappings_JArr)
next
  case (JObj obj)
  have step: "\<And>e rs. e \<in> set obj \<Longrightarrow>
      findByKey (snd e) key rs = rs @ matchingMappings key (snd e)"
  proof -
    fix e :: "string \<times> json" and rs
    assume "e \<in> set obj"
    then have "snd e \<in> Basic_BNFs.snds e" "e \<in> set obj"
      by (simp_all add: snds.simps)
    then show "findByKey (snd e) key rs = rs @ matchingMappings key (snd e)"
      by (rule JObj.IH [rotated])
  qed
  have "\<And>init. fold (\<lambda>e rs. findByKey (snd e) key rs) obj init =
        init @ concat (map (\<lambda>e. matchingMappings key (snd e)) obj)"
    by (rule fold_append_results) (rule step)
  then show ?case
    by (simp add: matchingMappings_JObj)
qed (simp_all add: matchingMappings_def ownsKey_def)

lemma subvalues_Cons: "subvalues v = v # tl (subvalues v)"
  by (cases v) simp_all

lemma subvalues_in_concat:
  assumes "x \<in> set xs" and "f x = A @ S @ B"
  shows "\<exists>A' B'. concat (map f xs) = A' @ S @ B'"
proof -
  from assms(1) obtain ys zs where "xs = ys @ x # zs"
    by (auto dest: split_list)
  then have "concat (map f xs) = (concat (map f ys) @ A) @ S @ (B @ concat (map f zs))"
    using assms(2) by simp
  then show ?thesis by blast
qed

lemma subvalues_contiguous:
  "u \<in> set (subvalues t) \<Longrightarrow> \<exists>A B. subvalues t = A @ subvalues u @ B"
proof (induction t)
  case (JArr items)
  show ?case
  proof (cases "u = JArr items")
    case True
    then have "subvalues (JArr items) = [] @ subvalues u @ []" by simp
    then show ?thesis by blast
  next
    case False
    with JArr.prems obtain x where x: "x \<in> set items" "u \<in> set (subvalues x)"
      by auto
    then obtain A B where "subvalues x = A @ subvalues u @ B"
      using JArr.IH by blast
    with x(1) obtain A' B' where "concat (map subvalues items) = A' @ subvalues u @ B'"
      using subvalues_in_concat [of x items subvalues A "subvalues u" B] by blast
    then have "subvalues (JArr items) = (JArr items # A') @ subvalues u @ B'" by simp
    then show ?thesis by blast
  qed
next
  case (JObj obj)
  show ?case
  proof (cases "u = JObj obj")
    case True
    then have "subvalues (JObj obj) = [] @ subvalues u @ []" by simp
    then show ?thesis by blast
  next
    case False
    with JObj.prems obtain e where e: "e \<in> set obj" "u \<in> set (subvalues (snd e))"
      by auto
    from e(1) have "snd e \<in> Basic_BNFs.snds e"
      by (simp add: snds.simps)
    with e obtain A B where "subvalues (snd e) = A @ subvalues u @ B"
      using JObj.IH by blast
    with e(1) obtain A' B' where
      "concat (map (\<lambda>e. subvalues (snd e)) obj) = A' @ subvalues u @ B'"
      using subvalues_in_concat [of e obj "\<lambda>e. subvalues (snd e)" A "subvalues u" B] by blast
    then have "subvalues (JObj obj) = (JObj obj # A') @ subvalues u @ B'" by simp
    then show ?thesis by blast
  qed
next
  case JNull
  then have "subvalues JNull = [] @ subvalues u @ []" by simp
  then show ?case by blast
next
  case (JBool b)
  then have "subvalues (JBool b) = [] @ subvalues u @ []" by simp
  then show ?case by blast
next
  case (JNum n)
  then have "subvalues (JNum n) = [] @ subvalues u @ []" by simp
  then show ?case by blast
next
  case (JStr s)
  then have "subvalues (JStr s) = [] @ subvalues u @ []" by simp
  then show ?case by blast
qed

text \<open>
  C3. For every decoded value \<open>parsed\<close> (a value passed in as it is, or the value
  extraction decoded from a text) and every key, the keyed entry point returns the empty
  collection when no mapping inside the value owns the key, the one matching mapping
  itself, not wrapped, when there is exactly one, and the collection of all matches in
  pre-order when there are two or more. The matches are what \<open>findByKey\<close> collects.
\<close>

theorem keyed_result_policy:
  assumes "parsedOf parse rawData = Inr parsed"
  shows "(matchingMappings key parsed = [] \<longrightarrow>
            parseJSON parse rawData (Some key) = Inr (JArr [])) \<and>
         (\<forall>m. matchingMappings key parsed = [m] \<longrightarrow>
            parseJSON parse rawData (Some key) = Inr m) \<and>
         (2 \<le> length (matchingMappings key parsed) \<longrightarrow>
            parseJSON parse rawData (Some key) = Inr (JArr (matchingMappings key parsed))) \<and>
         findByKey parsed key [] = matchingMappings key parsed"
proof -
  have fk: "findByKey parsed key [] = matchingMappings key parsed"
    by (simp add: findByKey_matchingMappings)
  have null: "parsed = JNull \<Longrightarrow> matchingMappings key parsed = []"
    by (simp add: matchingMappings_def ownsKey_def)
  show ?thesis
    using assms fk null
    by (cases "matchingMappings key parsed") (auto simp: parseJSON_def Let_def)
qed

theorem keyed_result_policy_witness:
  "parseJSON JSON_parse (Some (JArr [JNum ''1'', JObj [(''b'', JNum ''2'')]])) (Some ''a'')
     = Inr (JArr []) \<and>
   parseJSON JSON_parse (Some (JArr [JNum ''1'', JObj [(''a'', JNum ''2'')]])) (Some ''a'')
     = Inr (JObj [(''a'', JNum ''2'')]) \<and>
   parseJSON JSON_parse (Some (JArr [JObj [(''a'', JNum ''1'')], JObj [(''a'', JNum ''2'')]]))
       (Some ''a'')
     = Inr (JArr [JObj [(''a'', JNum ''1'')], JObj [(''a'', JNum ''2'')]])"
  using
    keyed_result_policy [of JSON_parse "Some (JArr [JNum ''1'', JObj [(''b'', JNum ''2'')]])"
      "JArr [JNum ''1'', JObj [(''b'', JNum ''2'')]]" "''a''"]
    keyed_result_policy [of JSON_parse "Some (JArr [JNum ''1'', JObj [(''a'', JNum ''2'')]])"
      "JArr [JNum ''1'', JObj [(''a'', JNum ''2'')]]" "''a''"]
    keyed_result_policy [of JSON_parse
      "Some (JArr [JObj [(''a'', JNum ''1'')], JObj [(''a'', JNum ''2'')]])"
      "JArr [JObj [(''a'', JNum ''1'')], JObj [(''a'', JNum ''2'')]]" "''a''"]
  by (simp add: parsedOf_def matchingMappings_def ownsKey_def)

text \<open>
  C5. In every decoded tree in which a mapping owns the key and a mapping nested inside
  it owns the key too, keyed search returns both, the outer one before the inner one:
  \<open>findByKey\<close> collects them in that order, and the entry point returns the collection.
\<close>

theorem outer_before_inner:
  assumes outer: "ownsKey key outer"
    and inner: "ownsKey key inner"
    and sub: "outer \<in> set (subvalues tree)"
    and nested: "inner \<in> set (tl (subvalues outer))"
  shows "\<exists>pre mid post.
           findByKey tree key [] = pre @ outer # mid @ inner # post \<and>
           parseJSON parse (Some tree) (Some key) = Inr (JArr (pre @ outer # mid @ inner # post))"
proof -
  from sub obtain A B where t: "subvalues tree = A @ subvalues outer @ B"
    using subvalues_contiguous by blast
  from nested obtain C D where "tl (subvalues outer) = C @ inner # D"
    by (auto dest: split_list)
  then have o: "subvalues outer = outer # C @ inner # D"
    using subvalues_Cons [of outer] by simp
  let ?f = "filter (ownsKey key)"
  have m: "matchingMappings key tree = ?f A @ outer # ?f C @ inner # (?f D @ ?f B)"
    using outer inner by (simp add: matchingMappings_def t o)
  then have fk: "findByKey tree key [] = ?f A @ outer # ?f C @ inner # (?f D @ ?f B)"
    by (simp add: findByKey_matchingMappings)
  have "\<exists>obj. outer = JObj obj"
    using outer by (cases outer) (simp_all add: ownsKey_def)
  with sub have "(\<exists>xs. tree = JArr xs) \<or> (\<exists>obj. tree = JObj obj)"
    by (cases tree) auto
  then have p: "parsedOf parse (Some tree) = Inr tree" and nn: "tree \<noteq> JNull"
    by (auto simp: parsedOf_def)
  have "parseJSON parse (Some tree) (Some key) = Inr (JArr (findByKey tree key []))"
    using p nn fk by (simp add: parseJSON_def Let_def)
  with fk show ?thesis by metis
qed

theorem outer_before_inner_witness:
  "\<exists>pre mid post.
     findByKey (JArr [JObj [(''a'', JObj [(''b'', JNum ''1''), (''a'', JNum ''2'')])]]) ''a'' []
       = pre @ JObj [(''a'', JObj [(''b'', JNum ''1''), (''a'', JNum ''2'')])] # mid @
           JObj [(''b'', JNum ''1''), (''a'', JNum ''2'')] # post \<and>
     parseJSON JSON_parse
         (Some (JArr [JObj [(''a'', JObj [(''b'', JNum ''1''), (''a'', JNum ''2'')])]]))
         (Some ''a'')
       = Inr (JArr (pre @ JObj [(''a'', JObj [(''b'', JNum ''1''), (''a'', JNum ''2'')])] # mid @
           JObj [(''b'', JNum ''1''), (''a'', JNum ''2'')] # post))"
  using outer_before_inner [of "''a''"
      "JObj [(''a'', JObj [(''b'', JNum ''1''), (''a'', JNum ''2'')])]"
      "JObj [(''b'', JNum ''1''), (''a'', JNum ''2'')]"
      "JArr [JObj [(''a'', JObj [(''b'', JNum ''1''), (''a'', JNum ''2'')])]]" JSON_parse]
  by (simp add: ownsKey_def)

subsection \<open>Input that is neither text nor a structured value\<close>

text \<open>
  C10. When \<^verbatim>\<open>rawData\<close> is \<^verbatim>\<open>null\<close>, \<^verbatim>\<open>undefined\<close>, a number or a boolean (neither a
  string nor an array or object), it is not used as a decoded value: the call without a
  key returns \<^verbatim>\<open>null\<close> and the call with a key returns the empty collection.
\<close>

theorem parseJSON_other_input:
  assumes "\<forall>s. rawData \<noteq> Some (JStr s)"
    and "\<forall>xs. rawData \<noteq> Some (JArr xs)"
    and "\<forall>obj. rawData \<noteq> Some (JObj obj)"
  shows "parseJSON parse rawData None = Inr JNull \<and>
         parseJSON parse rawData (Some key) = Inr (JArr [])"
proof -
  from assms have "parsedOf parse rawData = Inr JNull"
    by (auto simp: parsedOf_def split: option.splits json.splits)
  then show ?thesis by (simp add: parseJSON_def)
qed

theorem parseJSON_other_input_witness:
  "parseJSON JSON_parse (Some JNull) None = Inr JNull \<and>
   parseJSON JSON_parse (Some JNull) (Some ''a'') = Inr (JArr []) \<and>
   parseJSON JSON_parse (Some (JNum ''5'')) None = Inr JNull \<and>
   parseJSON JSON_parse None (Some ''a'') = Inr (JArr [])"
  using parseJSON_other_input [of "Some JNull" JSON_parse "''a''"]
    parseJSON_other_input [of "Some (JNum ''5'')" JSON_parse "''a''"]
    parseJSON_other_input [of None JSON_parse "''a''"]
  by simp

subsection \<open>The Classifier\<close>

lemma testMinusDigit_iff:
  "testMinusDigit s \<longleftrightarrow> (\<exists>d rest. isDigit d \<and> (s = d # rest \<or> s = CHR ''-'' # d # rest))"
proof (cases s)
  case Nil
  then show ?thesis by simp
next
  case (Cons c cs)
  have nd: "\<not> isDigit CHR ''-''" by (simp add: isDigit_def)
  show ?thesis
  proof (cases "c = CHR ''-''")
    case True
    with Cons nd show ?thesis by (cases cs) auto
  next
    case False
    with Cons show ?thesis by auto
  qed
qed

text \<open>
  C2, as amended. For every string already trimmed of leading white space, the Classifier
  returns true if and only if the string begins with \<^verbatim>\<open>{\<close>, \<^verbatim>\<open>[\<close> or \<^verbatim>\<open>"\<close>, or is
  exactly the literal \<^verbatim>\<open>true\<close>, \<^verbatim>\<open>false\<close> or \<^verbatim>\<open>null\<close>, or begins with a digit after
  an optional minus sign.
\<close>

theorem looksLikeJSON_trimmed:
  assumes "trimStart s = s"
  shows "looksLikeJSON s \<longleftrightarrow>
           startsWith s ''{'' \<or> startsWith s ''['' \<or> startsWith s [dquote] \<or>
           s = ''true'' \<or> s = ''false'' \<or> s = ''null'' \<or>
           (\<exists>d rest. isDigit d \<and> (s = d # rest \<or> s = CHR ''-'' # d # rest))"
  using assms by (simp add: looksLikeJSON_def testMinusDigit_iff)

theorem looksLikeJSON_trimmed_witness:
  "trimStart ''-5x'' = ''-5x'' \<and> looksLikeJSON ''-5x'' \<and>
   trimStart ''true'' = ''true'' \<and> looksLikeJSON ''true'' \<and>
   trimStart ''x = 1'' = ''x = 1'' \<and> \<not> looksLikeJSON ''x = 1''"
proof -
  have t: "trimStart ''-5x'' = ''-5x''" "trimStart ''true'' = ''true''"
    "trimStart ''x = 1'' = ''x = 1''"
    by (simp_all add: trimStart_def isSpace_def)
  have "isDigit CHR ''5'' \<and> (''-5x'' = CHR ''5'' # ''x'' \<or> ''-5x'' = CHR ''-'' # CHR ''5'' # ''x'')"
    by (simp add: isDigit_def)
  then have "\<exists>d rest. isDigit d \<and> (''-5x'' = d # rest \<or> ''-5x'' = CHR ''-'' # d # rest)"
    by blast
  then have a: "looksLikeJSON ''-5x''"
    using looksLikeJSON_trimmed [OF t(1)] by blast
  have b: "looksLikeJSON ''true''"
    using looksLikeJSON_trimmed [OF t(2)] by blast
  have "\<not> isDigit CHR ''x''" "\<not> isDigit CHR '' ''"
    by (simp_all add: isDigit_def)
  then have c: "\<not> looksLikeJSON ''x = 1''"
    using looksLikeJSON_trimmed [OF t(3)] by (auto simp: startsWith_def dquote_def)
  from t a b c show ?thesis by blast
qed

text \<open>
  C2 as stated fails: \<^verbatim>\<open>truex\<close> begins with the literal \<^verbatim>\<open>true\<close> and has no leading
  white space, and the Classifier rejects it (line 21 compares the whole string).
\<close>

theorem looksLikeJSON_prefix_counterexample:
  "trimStart ''truex'' = ''truex'' \<and> beginsLikeJSON ''truex'' \<and> \<not> looksLikeJSON ''truex''"
  by (simp add: trimStart_def isSpace_def isDigit_def startsWith_def dquote_def
      beginsLikeJSON_def looksLikeJSON_def)

subsection \<open>The BalancedExtractor\<close>

lemma find_map_shift: "find P (map f xs) = map_option f (find (\<lambda>x. P (f x)) xs)"
  by (induction xs) simp_all

lemma upt_0_Suc: "[0..<Suc n] = 0 # map Suc [0..<n]"
  by (simp add: upt_conv_Cons map_Suc_upt del: upt_Suc)

lemma length_counted [simp]: "length (counted opn cls s inString escape) = length s"
  by (induction s arbitrary: inString escape) simp_all

lemma balancedLoop_find:
  "balancedLoop opn cls s depth inString escape i =
     map_option (\<lambda>n. i + n)
       (find (\<lambda>n. counted opn cls s inString escape ! n = - 1 \<and>
                  depth + sum_list (take (Suc n) (counted opn cls s inString escape)) = 0)
          [0..<length s])"
proof (induction s arbitrary: depth inString escape i)
  case Nil
  show ?case by simp
next
  case (Cons ch rest)
  have shift: "\<And>(Q :: nat \<Rightarrow> bool) j n.
      map_option (\<lambda>n. j + n) (map_option Suc (find (\<lambda>n. Q n) [0..<n])) =
      map_option (\<lambda>n. Suc j + n) (find (\<lambda>n. Q n) [0..<n])"
    by (simp add: option.map_comp comp_def)
  have ar: "\<And>d s :: int. (d + (s - 1) = 0) = (d - 1 + s = 0)"
    by arith
  show ?case
    unfolding length_Cons upt_0_Suc
    by (simp add: Cons.IH find_map_shift shift option.map_comp comp_def add.assoc ar
        del: upt_Suc)
qed

lemma extractBalanced_spec:
  "extractBalanced text start opn cls = balancedSpec text start opn cls"
  by (simp add: extractBalanced_def balancedSpec_def closingIndex_def balancedLoop_find
      slice_def Let_def option.map_comp comp_def split: option.splits)

lemma balancedLoop_inside_string:
  "quotedBody body \<Longrightarrow>
   balancedLoop opn cls (body @ dquote # rest) depth True False i =
   balancedLoop opn cls rest depth False False (i + length body + 1)"
proof (induction body arbitrary: i rule: quotedBody.induct)
  case 1
  have "dquote \<noteq> backslash" by (simp add: dquote_def backslash_def)
  then show ?case by simp
next
  case (2 c cs)
  show ?case
  proof (cases "c = backslash")
    case True
    with "2.prems" obtain e cs' where cs: "cs = e # cs'" and q: "quotedBody cs'"
      by (cases cs) auto
    from True cs q have "balancedLoop opn cls (cs' @ dquote # rest) depth True False (i + 2) =
        balancedLoop opn cls rest depth False False (i + 2 + length cs' + 1)"
      using "2.IH"(1) [of e cs' "i + 2"] by simp
    with True cs show ?thesis
      by (simp add: add.commute add.left_commute)
  next
    case False
    with "2.prems" have nq: "c \<noteq> dquote" and q: "quotedBody cs" by auto
    from False nq q have "balancedLoop opn cls (cs @ dquote # rest) depth True False (i + 1) =
        balancedLoop opn cls rest depth False False (i + 1 + length cs + 1)"
      using "2.IH"(2) [of "i + 1"] by simp
    with False nq show ?thesis
      by (simp add: add.commute add.left_commute)
  qed
qed

lemma balancedLoop_skips_string:
  assumes "quotedBody body"
  shows "balancedLoop opn cls (dquote # body @ dquote # rest) depth False False i =
         balancedLoop opn cls rest depth False False (i + length body + 2)"
proof -
  have "dquote \<noteq> backslash" by (simp add: dquote_def backslash_def)
  then have "balancedLoop opn cls (dquote # body @ dquote # rest) depth False False i =
      balancedLoop opn cls (body @ dquote # rest) depth True False (i + 1)"
    by simp
  also have "\<dots> = balancedLoop opn cls rest depth False False (i + 1 + length body + 1)"
    using assms by (rule balancedLoop_inside_string)
  finally show ?thesis by (simp add: add.commute add.left_commute)
qed

lemma closingIndex_None:
  "0 \<notin> set (depths opn cls s) \<Longrightarrow> closingIndex opn cls s = None"
  by (auto simp: closingIndex_def depths_def Let_def find_None_iff)

text \<open>
  C6. For every text, start index and delimiter pair: the scan passes over a
  double-quoted run, whatever delimiters it contains and with a backslash hiding the
  next character, without changing the depth; the result is the text from the start
  through the first closing delimiter after which the depth is zero; and when the depth
  is never zero after a character the result is not-found. In particular
  \<^verbatim>\<open>{"a": "x{y}z"}\<close> is extracted whole and decodes with \<^verbatim>\<open>a\<close> equal to \<^verbatim>\<open>x{y}z\<close>.
\<close>

theorem extractBalanced_contract:
  \<open>(quotedBody body \<longrightarrow>
      balancedLoop opn cls (dquote # body @ dquote # rest) depth False False i =
      balancedLoop opn cls rest depth False False (i + length body + 2)) \<and>
   extractBalanced text start opn cls = balancedSpec text start opn cls \<and>
   (0 \<notin> set (depths opn cls (drop start text)) \<longrightarrow>
      extractBalanced text start opn cls = None) \<and>
   extractBalanced ''{"a": "x{y}z"}'' 0 ''{'' ''}'' = Some ''{"a": "x{y}z"}'' \<and>
   parseJSON JSON_parse (Some (JStr ''{"a": "x{y}z"}'')) None
     = Inr (JObj [(''a'', JStr ''x{y}z'')]) \<and>
   parseJSON JSON_parse (Some (JStr ''data: {"a": "x{y}z"} end'')) None
     = Inr (JObj [(''a'', JStr ''x{y}z'')])\<close>
proof -
  have a: "quotedBody body \<longrightarrow>
      balancedLoop opn cls (dquote # body @ dquote # rest) depth False False i =
      balancedLoop opn cls rest depth False False (i + length body + 2)"
    by (rule impI) (rule balancedLoop_skips_string)
  have b: "extractBalanced text start opn cls = balancedSpec text start opn cls"
    by (rule extractBalanced_spec)
  have c: "0 \<notin> set (depths opn cls (drop start text)) \<longrightarrow>
      extractBalanced text start opn cls = None"
    by (simp add: extractBalanced_spec balancedSpec_def closingIndex_None)
  have d: \<open>extractBalanced ''{"a": "x{y}z"}'' 0 ''{'' ''}'' = Some ''{"a": "x{y}z"}''\<close>
    by code_simp
  have e: \<open>parseJSON JSON_parse (Some (JStr ''{"a": "x{y}z"}'')) None
     = Inr (JObj [(''a'', JStr ''x{y}z'')])\<close>
    by code_simp
  have f: \<open>parseJSON JSON_parse (Some (JStr ''data: {"a": "x{y}z"} end'')) None
     = Inr (JObj [(''a'', JStr ''x{y}z'')])\<close>
    by code_simp
  from a b c d e f show ?thesis by blast
qed

theorem extractBalanced_contract_witness:
  \<open>quotedBody ''x{y}z'' \<and>
   balancedLoop ''{'' ''}'' (dquote # ''x{y}z'' @ dquote # ''}'') 1 False False 6 = Some 13 \<and>
   0 \<notin> set (depths ''{'' ''}'' (drop 0 ''{"a": "{"'')) \<and>
   extractBalanced ''{"a": "{"'' 0 ''{'' ''}'' = None\<close>
proof -
  have q: "quotedBody ''x{y}z''"
    by (simp add: backslash_def dquote_def)
  have z: \<open>0 \<notin> set (depths ''{'' ''}'' (drop 0 ''{"a": "{"''))\<close>
    by code_simp
  have l: "balancedLoop ''{'' ''}'' ''}'' 1 False False (6 + length ''x{y}z'' + 2) = Some 13"
    by (simp add: backslash_def dquote_def)
  note contract = extractBalanced_contract
    [of "''x{y}z''" "''{''" "''}''" "''}''" 1 6 \<open>''{"a": "{"''\<close> 0]
  from contract q
  have "balancedLoop ''{'' ''}'' (dquote # ''x{y}z'' @ dquote # ''}'') 1 False False 6 =
      balancedLoop ''{'' ''}'' ''}'' 1 False False (6 + length ''x{y}z'' + 2)"
    by blast
  also note l
  finally have s: "balancedLoop ''{'' ''}'' (dquote # ''x{y}z'' @ dquote # ''}'') 1 False False 6
      = Some 13" .
  from contract z have n: \<open>extractBalanced ''{"a": "{"'' 0 ''{'' ''}'' = None\<close>
    by blast
  from q s z n show ?thesis by blast
qed

subsection \<open>Trimming and the extraction strategies\<close>

lemma trimEnd_prefix: "\<exists>z. u = trimEnd u @ z"
proof -
  have "rev (takeWhile isSpace (rev u) @ dropWhile isSpace (rev u)) = u"
    by (simp only: takeWhile_dropWhile_id rev_rev_ident)
  then have "trimEnd u @ rev (takeWhile isSpace (rev u)) = u"
    by (simp only: rev_append trimEnd_def)
  then show ?thesis by metis
qed

lemma trimStart_trimEnd:
  assumes "trimStart u = u"
  shows "trimStart (trimEnd u) = trimEnd u"
proof (cases "trimEnd u")
  case Nil
  then show ?thesis by (simp add: trimStart_def)
next
  case (Cons c w)
  obtain z where "u = trimEnd u @ z" using trimEnd_prefix by blast
  with Cons have u: "u = c # w @ z" by simp
  from assms have "u = [] \<or> \<not> isSpace (hd u)"
    by (simp add: trimStart_def dropWhile_eq_self_iff)
  with u have "\<not> isSpace c" by simp
  with Cons show ?thesis by (simp add: trimStart_def)
qed

lemma trimEnd_idem: "trimEnd (trimEnd u) = trimEnd u"
  by (simp add: trimEnd_def)

lemma trimStart_idem: "trimStart (trimStart u) = trimStart u"
  by (simp add: trimStart_def)

lemma trim_idem: "trim (trim s) = trim s"
  by (simp add: trim_def trimStart_trimEnd trimStart_idem trimEnd_idem)

lemma extractAndParse_locateBlock:
  "extractAndParse parse raw =
     (case locateBlock (trim raw) of
        None \<Rightarrow> Inr JNull
      | Some block \<Rightarrow> parse (normalizeToJSON block))"
  by (simp add: extractAndParse_def locateBlock_def Let_def split: option.splits)

lemma parsedOf_text:
  "parsedOf parse (Some (JStr s)) =
     (case locateBlock (trim s) of
        None \<Rightarrow> Inr JNull
      | Some block \<Rightarrow> parse (normalizeToJSON block))"
  by (simp add: parsedOf_def extractAndParse_locateBlock trim_idem)

text \<open>
  C4. For every string input: when no strategy locates a block, the entry point returns
  \<^verbatim>\<open>null\<close> without a key and the empty collection with a key, and raises nothing; when
  a block is located and the strict decoder rejects its normalized text, the decoder's
  error leaves the entry point, with or without a key.
\<close>

theorem absence_and_decode_failure:
  "(locateBlock (trim s) = None \<longrightarrow>
      parseJSON parse (Some (JStr s)) None = Inr JNull \<and>
      parseJSON parse (Some (JStr s)) (Some key) = Inr (JArr [])) \<and>
   (\<forall>block e. locateBlock (trim s) = Some block \<and> parse (normalizeToJSON block) = Inl e \<longrightarrow>
      parseJSON parse (Some (JStr s)) nodeKey = Inl e)"
  by (simp add: parseJSON_def parsedOf_text)

theorem absence_and_decode_failure_witness:
  "locateBlock (trim ''  no data here '') = None \<and>
   parseJSON JSON_parse (Some (JStr ''  no data here '')) None = Inr JNull \<and>
   parseJSON JSON_parse (Some (JStr ''  no data here '')) (Some ''a'') = Inr (JArr []) \<and>
   locateBlock (trim ''x = [1,, 2]'') = Some ''[1,, 2]'' \<and>
   JSON_parse (normalizeToJSON ''[1,, 2]'') = Inl SyntaxError \<and>
   parseJSON JSON_parse (Some (JStr ''x = [1,, 2]'')) None = Inl SyntaxError \<and>
   parseJSON JSON_parse (Some (JStr ''x = [1,, 2]'')) (Some ''a'') = Inl SyntaxError"
proof -
  have n: "locateBlock (trim ''  no data here '') = None"
    by code_simp
  have b: "locateBlock (trim ''x = [1,, 2]'') = Some ''[1,, 2]''"
    by code_simp
  have e: "JSON_parse (normalizeToJSON ''[1,, 2]'') = Inl SyntaxError"
    by code_simp
  from n b e
    absence_and_decode_failure [of "''  no data here ''" JSON_parse "''a''" None]
    absence_and_decode_failure [of "''x = [1,, 2]''" JSON_parse "''a''" None]
    absence_and_decode_failure [of "''x = [1,, 2]''" JSON_parse "''a''" "Some ''a''"]
  show ?thesis by blast
qed

subsection \<open>The assignment strategy\<close>

lemma indexOf_append:
  "c \<notin> set lhs \<Longrightarrow> indexOf (lhs @ c # xs) c = Some (length lhs)"
  by (induction lhs) auto

lemma counted_closing:
  "n < length s \<Longrightarrow> counted opn cls s inString escape ! n = - 1 \<Longrightarrow> [s ! n] = cls"
proof (induction s arbitrary: n inString escape)
  case Nil
  then show ?case by simp
next
  case (Cons ch rest)
  show ?case
  proof (cases n)
    case 0
    with Cons.prems show ?thesis by (auto split: if_splits)
  next
    case (Suc m)
    with Cons.prems have "m < length rest" by simp
    moreover from Cons.prems Suc
    have "\<exists>inS esc. counted opn cls rest inS esc ! m = - 1"
      by (auto split: if_splits)
    ultimately show ?thesis using Cons.IH Suc by auto
  qed
qed

lemma extractBalanced_Some:
  assumes "extractBalanced text start opn cls = Some b"
  shows "\<exists>n. n < length (drop start text) \<and> b = take (Suc n) (drop start text) \<and>
             [drop start text ! n] = cls"
proof -
  from assms obtain n where n: "closingIndex opn cls (drop start text) = Some n"
    and b: "b = take (Suc n) (drop start text)"
    by (auto simp: extractBalanced_spec balancedSpec_def)
  from n have "n < length (drop start text)"
    and "counted opn cls (drop start text) False False ! n = - 1"
    by (auto simp: closingIndex_def Let_def find_Some_iff)
  then have "[drop start text ! n] = cls"
    by (rule counted_closing)
  with b \<open>n < length (drop start text)\<close> show ?thesis by blast
qed

lemma extractBalanced_drop:
  "extractBalanced text start opn cls = extractBalanced (drop start text) 0 opn cls"
  by (simp add: extractBalanced_spec balancedSpec_def)

lemma trim_self:
  assumes "b \<noteq> []" and "\<not> isSpace (hd b)" and "\<not> isSpace (last b)"
  shows "trim b = b"
proof -
  from assms have s: "trimStart b = b"
    by (simp add: trimStart_def dropWhile_eq_self_iff)
  from assms have "rev b \<noteq> []" "\<not> isSpace (hd (rev b))"
    by (simp_all add: hd_rev)
  then have "dropWhile isSpace (rev b) = rev b"
    by (simp add: dropWhile_eq_self_iff)
  then have "trimEnd b = b" by (simp add: trimEnd_def)
  with s show ?thesis by (simp add: trim_def)
qed

lemma bare_block:
  assumes bal: "extractBalanced text start [opn] [cls] = Some block"
    and hd: "hd block = opn"
    and oc: "opn = CHR ''{'' \<or> opn = CHR ''[''" "cls = CHR ''}'' \<or> cls = CHR '']''"
  shows "extractAndParse parse (trim block) = parse (normalizeToJSON block)"
proof -
  from bal obtain n where n: "n < length (drop start text)"
    and b: "block = take (Suc n) (drop start text)" and c: "[drop start text ! n] = [cls]"
    using extractBalanced_Some by blast
  from n b have ne: "block \<noteq> []" by auto
  from n b have "last block = drop start text ! n"
    by (simp add: take_Suc_conv_app_nth)
  with c have l: "last block = cls" by simp
  from oc hd l have "\<not> isSpace (hd block)" "\<not> isSpace (last block)"
    by (auto simp: isSpace_def)
  with ne have t: "trim block = block" by (rule trim_self)
  then have ts: "trimStart block = block"
    using ne \<open>\<not> isSpace (hd block)\<close> by (simp add: trimStart_def dropWhile_eq_self_iff)
  from ne hd obtain body where "block = opn # body" by (cases block) auto
  with oc ts have "looksLikeJSON block"
    by (auto simp: looksLikeJSON_def startsWith_def)
  with t show ?thesis by (simp add: extractAndParse_def)
qed

lemma assignment_block:
  assumes t: "t = lhs @ ''='' @ ws @ block @ rest"
    and lhs: "CHR ''='' \<notin> set lhs"
    and ws: "\<forall>c \<in> set ws. isSpace c"
    and oc: "(opn = CHR ''{'' \<and> cls = CHR ''}'') \<or> (opn = CHR ''['' \<and> cls = CHR '']'')"
    and hd: "hd block = opn"
    and bal: "extractBalanced (block @ rest) 0 [opn] [cls] = Some block"
  shows "assignmentBlock t = Some block"
proof -
  from bal have ne: "block \<noteq> []"
    using extractBalanced_Some [of "block @ rest" 0 "[opn]" "[cls]" block] by auto
  from oc hd have nsp: "\<not> isSpace (hd block)"
    by (auto simp: isSpace_def)
  from t lhs have idx: "indexOf t CHR ''='' = Some (length lhs)"
    by (simp add: indexOf_append)
  from t have d1: "drop (length lhs + 1) t = ws @ block @ rest" by simp
  from ne nsp have "takeWhile isSpace (block @ rest) = []"
    by (cases block) simp_all
  with ws have "takeWhile isSpace (ws @ block @ rest) = ws"
    by (simp add: takeWhile_append2)
  with d1 have js: "skipSpaces t (length lhs) = length lhs + 1 + length ws"
    by (simp add: skipSpaces_def)
  from t have d2: "drop (length lhs + 1 + length ws) t = block @ rest" by simp
  from t ne have len: "length lhs + 1 + length ws < length t"
    by (cases block) simp_all
  from t ne hd have "t ! (length lhs + 1 + length ws) = opn"
    by (cases block) (simp_all add: nth_append)
  with len have ch: "charAt t (length lhs + 1 + length ws) = Some opn"
    by (simp add: charAt_def)
  have "extractBalanced t (length lhs + 1 + length ws) [opn] [cls] = Some block"
    using bal d2 extractBalanced_drop [of t "length lhs + 1 + length ws" "[opn]" "[cls]"]
    by simp
  with idx js ch oc show ?thesis
    by (auto simp: assignmentBlock_def Let_def)
qed

text \<open>
  C9, as amended. For every input whose trimmed text the Classifier rejects and that
  reads \<^verbatim>\<open>lhs = block rest\<close>, where \<^verbatim>\<open>lhs\<close> has no \<^verbatim>\<open>=\<close> and \<^verbatim>\<open>block\<close> begins with
  \<^verbatim>\<open>{\<close> or \<^verbatim>\<open>[\<close> and is the balanced block the BalancedExtractor delimits there
  (it honours double-quoted strings only), the entry point returns what it returns for
  the bare block. \<^verbatim>\<open>var x = {"a": 1}\<close> extracts the same mapping as \<^verbatim>\<open>{"a": 1}\<close>.
\<close>

theorem assignment_form_same_as_block:
  assumes t: "trim s = lhs @ ''='' @ ws @ block @ rest"
    and lhs: "CHR ''='' \<notin> set lhs"
    and notjson: "\<not> looksLikeJSON (trim s)"
    and ws: "\<forall>c \<in> set ws. isSpace c"
    and oc: "(opn = CHR ''{'' \<and> cls = CHR ''}'') \<or> (opn = CHR ''['' \<and> cls = CHR '']'')"
    and hd: "hd block = opn"
    and bal: "extractBalanced (block @ rest) 0 [opn] [cls] = Some block"
  shows "parseJSON parse (Some (JStr s)) nodeKey = parseJSON parse (Some (JStr block)) nodeKey"
proof -
  have ab: "assignmentBlock (trim s) = Some block"
    using t lhs ws oc hd bal by (rule assignment_block)
  have "extractAndParse parse (trim s) = parse (normalizeToJSON block)"
    using notjson ab by (simp add: extractAndParse_def trim_idem)
  moreover have "extractAndParse parse (trim block) = parse (normalizeToJSON block)"
    using bal hd oc by (intro bare_block [of "block @ rest" 0 opn cls]) auto
  ultimately have "parsedOf parse (Some (JStr s)) = parsedOf parse (Some (JStr block))"
    by (simp add: parsedOf_def)
  then show ?thesis by (simp add: parseJSON_def)
qed

theorem assignment_form_same_as_block_witness:
  \<open>parseJSON JSON_parse (Some (JStr ''var x = {"a": 1}'')) None =
     parseJSON JSON_parse (Some (JStr ''{"a": 1}'')) None \<and>
   parseJSON JSON_parse (Some (JStr ''{"a": 1}'')) None = Inr (JObj [(''a'', JNum ''1'')])\<close>
proof -
  have t: \<open>trim ''var x = {"a": 1}'' = ''var x '' @ ''='' @ '' '' @ ''{"a": 1}'' @ []\<close>
    by code_simp
  have lhs: "CHR ''='' \<notin> set ''var x ''" by simp
  have nj: \<open>\<not> looksLikeJSON (trim ''var x = {"a": 1}'')\<close>
    by code_simp
  have ws: "\<forall>c \<in> set '' ''. isSpace c" by (simp add: isSpace_def)
  have oc: "(CHR ''{'' = CHR ''{'' \<and> CHR ''}'' = CHR ''}'') \<or>
      (CHR ''{'' = CHR ''['' \<and> CHR ''}'' = CHR '']'')" by simp
  have hd: \<open>hd ''{"a": 1}'' = CHR ''{''\<close> by simp
  have bal: \<open>extractBalanced (''{"a": 1}'' @ []) 0 ''{'' ''}'' = Some ''{"a": 1}''\<close>
    by code_simp
  have v: \<open>parseJSON JSON_parse (Some (JStr ''{"a": 1}'')) None
      = Inr (JObj [(''a'', JNum ''1'')])\<close>
    by code_simp
  from assignment_form_same_as_block [OF t lhs nj ws oc hd bal, of JSON_parse None] v
  show ?thesis by blast
qed

text \<open>
  C9 as stated fails where the literal has a closing delimiter inside a single-quoted
  string: the bare literal is normalized whole and decodes, the assignment form is cut
  at that delimiter and the decoder rejects the piece.
\<close>

theorem assignment_form_counterexample:
  \<open>parseJSON JSON_parse (Some (JStr ''x = {'a': '}'}'')) None = Inl SyntaxError \<and>
   parseJSON JSON_parse (Some (JStr ''{'a': '}'}'')) None = Inr (JObj [(''a'', JStr ''}'')])\<close>
proof -
  have a: \<open>parseJSON JSON_parse (Some (JStr ''x = {'a': '}'}'')) None = Inl SyntaxError\<close>
    by code_simp
  have b: \<open>parseJSON JSON_parse (Some (JStr ''{'a': '}'}'')) None
      = Inr (JObj [(''a'', JStr ''}'')])\<close>
    by code_simp
  from a b show ?thesis by blast
qed

subsection \<open>The Normalizer's rewrites\<close>

text \<open>
  A match of the key pattern is an opening \<^verbatim>\<open>{\<close> or a comma, white space, an identifier,
  white space and a colon; the attempt at the head of a text succeeds exactly on texts
  of that shape.
\<close>

lemma takeWhile_run:
  "\<forall>x \<in> set xs. P x \<Longrightarrow> \<not> P y \<Longrightarrow> takeWhile P (xs @ y # ys) = xs"
  by (induction xs) simp_all

lemma dropWhile_run:
  "\<forall>x \<in> set xs. P x \<Longrightarrow> \<not> P y \<Longrightarrow> dropWhile P (xs @ y # ys) = y # ys"
  by (induction xs) simp_all

lemma identStart_not_space: "isIdentStart c \<Longrightarrow> \<not> isSpace c"
  by (auto simp: isIdentStart_def isSpace_def)

lemma space_not_identPart: "isSpace c \<Longrightarrow> \<not> isIdentPart c"
  by (auto simp: isIdentPart_def isIdentStart_def isDigit_def isSpace_def)

lemma colon_class: "\<not> isSpace CHR '':''" "\<not> isIdentPart CHR '':''"
  by (auto simp: isIdentPart_def isIdentStart_def isDigit_def isSpace_def)

lemma matchKey_intro:
  assumes d: "d = CHR ''{'' \<or> d = CHR '',''"
    and ws: "\<forall>c \<in> set ws. isSpace c"
    and ident: "ident \<noteq> []" "isIdentStart (hd ident)" "\<forall>c \<in> set ident. isIdentPart c"
    and ws2: "\<forall>c \<in> set ws2. isSpace c"
  shows "matchKey (d # ws @ ident @ ws2 @ CHR '':'' # rest)
           = Some (d # ws, ident, ws2 @ '':'', rest)"
proof -
  from ident obtain c cs where i: "ident = c # cs" by (cases ident) auto
  with ident have c: "isIdentStart c" "\<not> isSpace c" "isIdentPart c"
    by (auto simp: identStart_not_space)
  have r1: "dropWhile isSpace (ws @ ident @ ws2 @ CHR '':'' # rest)
      = ident @ ws2 @ CHR '':'' # rest"
    using ws c i dropWhile_run [of ws isSpace c "cs @ ws2 @ CHR '':'' # rest"] by simp
  have t1: "takeWhile isSpace (ws @ ident @ ws2 @ CHR '':'' # rest) = ws"
    using ws c i takeWhile_run [of ws isSpace c "cs @ ws2 @ CHR '':'' # rest"] by simp
  have r3: "dropWhile isSpace (ws2 @ CHR '':'' # rest) = CHR '':'' # rest"
    and t3: "takeWhile isSpace (ws2 @ CHR '':'' # rest) = ws2"
    using ws2 colon_class by (simp_all add: dropWhile_run takeWhile_run)
  have r2: "dropWhile isIdentPart (ident @ ws2 @ CHR '':'' # rest) = ws2 @ CHR '':'' # rest"
    and t2: "takeWhile isIdentPart (ident @ ws2 @ CHR '':'' # rest) = ident"
  proof -
    show "dropWhile isIdentPart (ident @ ws2 @ CHR '':'' # rest) = ws2 @ CHR '':'' # rest"
    proof (cases ws2)
      case Nil
      with ident colon_class show ?thesis by (simp add: dropWhile_run)
    next
      case (Cons w ws2')
      with ws2 have "\<not> isIdentPart w" by (simp add: space_not_identPart)
      with ident Cons show ?thesis by (simp add: dropWhile_run)
    qed
    show "takeWhile isIdentPart (ident @ ws2 @ CHR '':'' # rest) = ident"
    proof (cases ws2)
      case Nil
      with ident colon_class show ?thesis by (simp add: takeWhile_run)
    next
      case (Cons w ws2')
      with ws2 have "\<not> isIdentPart w" by (simp add: space_not_identPart)
      with ident Cons show ?thesis by (simp add: takeWhile_run)
    qed
  qed
  show ?thesis
    using d c i r1 t1 r2 t2 r3 t3
    by (simp add: matchKey_def Let_def)
qed

lemma matchKey_elim:
  assumes "matchKey s = Some (g1, g2, g3, rest)"
  shows "\<exists>d ws ident ws2.
           s = d # ws @ ident @ ws2 @ CHR '':'' # rest \<and>
           (d = CHR ''{'' \<or> d = CHR '','') \<and> (\<forall>c \<in> set ws. isSpace c) \<and>
           ident \<noteq> [] \<and> isIdentStart (hd ident) \<and> (\<forall>c \<in> set ident. isIdentPart c) \<and>
           (\<forall>c \<in> set ws2. isSpace c) \<and>
           g1 = d # ws \<and> g2 = ident \<and> g3 = ws2 @ '':''"
proof -
  from assms obtain d r where s: "s = d # r" and d: "d = CHR ''{'' \<or> d = CHR '',''"
    by (cases s) (auto simp: matchKey_def split: if_splits)
  define ws where "ws = takeWhile isSpace r"
  define r1 where "r1 = dropWhile isSpace r"
  define ident where "ident = takeWhile isIdentPart r1"
  define r2 where "r2 = dropWhile isIdentPart r1"
  define ws2 where "ws2 = takeWhile isSpace r2"
  define r3 where "r3 = dropWhile isSpace r2"
  have r: "r = ws @ ident @ ws2 @ r3"
    by (simp add: ws_def r1_def ident_def r2_def ws2_def r3_def)
  from assms s d obtain c where c: "r1 = c # tl r1" "isIdentStart c"
    by (auto simp: matchKey_def Let_def r1_def split: if_splits list.splits)
  from assms s d c have res: "r3 = CHR '':'' # rest" "g1 = d # ws" "g2 = ident" "g3 = ws2 @ '':''"
    by (auto simp: matchKey_def Let_def r1_def r2_def r3_def ws_def ident_def ws2_def
        split: if_splits list.splits)
  from c have "isIdentPart c" by (simp add: isIdentPart_def)
  with c have "ident = c # takeWhile isIdentPart (tl r1)"
    unfolding ident_def by (metis takeWhile.simps(2))
  then have i: "ident \<noteq> []" "isIdentStart (hd ident)"
    using c by simp_all
  have "\<forall>c \<in> set ws. isSpace c" "\<forall>c \<in> set ident. isIdentPart c" "\<forall>c \<in> set ws2. isSpace c"
    by (auto simp: ws_def ident_def ws2_def dest: set_takeWhileD)
  with s d r res i show ?thesis by auto
qed

lemma matchKey_extend:
  assumes "matchKey s = Some (g1, g2, g3, rest)"
  shows "matchKey (s @ z) = Some (g1, g2, g3, rest @ z)"
proof -
  from matchKey_elim [OF assms] obtain d ws ident ws2 where
    s: "s = d # ws @ ident @ ws2 @ CHR '':'' # rest" and
    h: "d = CHR ''{'' \<or> d = CHR '',''" "\<forall>c \<in> set ws. isSpace c"
      "ident \<noteq> []" "isIdentStart (hd ident)" "\<forall>c \<in> set ident. isIdentPart c"
      "\<forall>c \<in> set ws2. isSpace c" and
    g: "g1 = d # ws" "g2 = ident" "g3 = ws2 @ '':''"
    by blast
  from s have "s @ z = d # ws @ ident @ ws2 @ CHR '':'' # (rest @ z)" by simp
  with matchKey_intro [OF h, of "rest @ z"] g show ?thesis by simp
qed

lemma opener_class:
  assumes "d = CHR ''{'' \<or> d = CHR '',''"
  shows "\<not> isSpace d" "\<not> isIdentPart d" "d \<noteq> CHR '':''"
  using assms by (auto simp: isIdentPart_def isIdentStart_def isDigit_def isSpace_def)

lemma append_cut:
  assumes eq: "xs @ d # ys = m @ rest" and d: "d \<notin> set m"
  shows "\<exists>z. xs = m @ z"
proof -
  from eq consider us where "xs = m @ us" | us where "xs @ us = m" "d # ys = us @ rest"
    by (auto simp: append_eq_append_conv2)
  then show ?thesis
  proof cases
    case 1
    then show ?thesis by blast
  next
    case 2
    show ?thesis
    proof (cases us)
      case Nil
      with 2 show ?thesis by simp
    next
      case (Cons u us')
      with 2 have "d \<in> set m" by auto
      with d show ?thesis by simp
    qed
  qed
qed

lemma matchKey_restrict:
  assumes m: "matchKey ((c # cs) @ d # y) = Some (g1, g2, g3, rest)"
    and d: "d = CHR ''{'' \<or> d = CHR '',''"
  shows "\<exists>z. matchKey (c # cs) = Some (g1, g2, g3, z)"
proof -
  from matchKey_elim [OF m] obtain d0 ws ident ws2 where
    s: "(c # cs) @ d # y = d0 # ws @ ident @ ws2 @ CHR '':'' # rest" and
    h: "d0 = CHR ''{'' \<or> d0 = CHR '',''" "\<forall>c \<in> set ws. isSpace c"
      "ident \<noteq> []" "isIdentStart (hd ident)" "\<forall>c \<in> set ident. isIdentPart c"
      "\<forall>c \<in> set ws2. isSpace c" and
    g: "g1 = d0 # ws" "g2 = ident" "g3 = ws2 @ '':''"
    by blast
  from s have c: "c = d0" and cs: "cs @ d # y = (ws @ ident @ ws2 @ '':'') @ rest"
    by simp_all
  have nd: "d \<notin> set (ws @ ident @ ws2 @ '':'')"
    using h opener_class [OF d] by auto
  from append_cut [OF cs nd] obtain z where z: "cs = (ws @ ident @ ws2 @ '':'') @ z" ..
  have "c # cs = d0 # ws @ ident @ ws2 @ CHR '':'' # z"
    unfolding c z by simp
  then have "matchKey (c # cs) = Some (d0 # ws, ident, ws2 @ '':'', z)"
    using matchKey_intro [OF h, of z] by (simp only:)
  with g show ?thesis by blast
qed

lemma quoteKeys_split:
  assumes d: "d = CHR ''{'' \<or> d = CHR '',''"
  shows "quoteKeys (pre @ d # y) = quoteKeys pre @ quoteKeys (d # y)"
proof (induction "length pre" arbitrary: pre rule: less_induct)
  case less
  show ?case
  proof (cases pre)
    case Nil
    then show ?thesis by simp
  next
    case (Cons c cs)
    show ?thesis
    proof (cases "matchKey (c # cs)")
      case None
      have "matchKey ((c # cs) @ d # y) = None"
      proof (rule ccontr)
        assume "matchKey ((c # cs) @ d # y) \<noteq> None"
        then obtain g1 g2 g3 rest where "matchKey ((c # cs) @ d # y) = Some (g1, g2, g3, rest)"
          by auto
        from matchKey_restrict [OF this d] None show False by simp
      qed
      moreover have "quoteKeys (cs @ d # y) = quoteKeys cs @ quoteKeys (d # y)"
        using less [of cs] Cons by simp
      ultimately show ?thesis using None Cons by simp
    next
      case (Some m)
      then obtain g1 g2 g3 rest where m: "matchKey (c # cs) = Some (g1, g2, g3, rest)"
        by (cases m) auto
      then have "matchKey ((c # cs) @ d # y) = Some (g1, g2, g3, rest @ d # y)"
        by (rule matchKey_extend)
      moreover have "length rest < length pre"
        using matchKey_shorter [OF m] Cons by simp
      then have "quoteKeys (rest @ d # y) = quoteKeys rest @ quoteKeys (d # y)"
        by (rule less)
      ultimately show ?thesis using m Cons by simp
    qed
  qed
qed

lemma quoteKeys_key:
  assumes d: "d = CHR ''{'' \<or> d = CHR '',''"
    and ws: "\<forall>c \<in> set ws. isSpace c"
    and ident: "ident \<noteq> []" "isIdentStart (hd ident)" "\<forall>c \<in> set ident. isIdentPart c"
    and ws2: "\<forall>c \<in> set ws2. isSpace c"
  shows "quoteKeys (pre @ d # ws @ ident @ ws2 @ CHR '':'' # post) =
         quoteKeys pre @ d # ws @ dquote # ident @ dquote # ws2 @ CHR '':'' # quoteKeys post"
proof -
  have "quoteKeys (d # ws @ ident @ ws2 @ CHR '':'' # post) =
      d # ws @ dquote # ident @ dquote # ws2 @ CHR '':'' # quoteKeys post"
    using matchKey_intro [OF d ws ident ws2, of post] by simp
  with quoteKeys_split [OF d, of pre "ws @ ident @ ws2 @ CHR '':'' # post"]
  show ?thesis by simp
qed

lemma matchComma_intro:
  assumes "\<forall>x \<in> set ws. isSpace x" and "c = CHR ''}'' \<or> c = CHR '']''"
  shows "matchComma (CHR '','' # ws @ c # rest) = Some (ws @ [c], rest)"
proof -
  from assms(2) have "\<not> isSpace c" by (auto simp: isSpace_def)
  with assms(1) have "dropWhile isSpace (ws @ c # rest) = c # rest"
    "takeWhile isSpace (ws @ c # rest) = ws"
    by (simp_all add: dropWhile_run takeWhile_run)
  with assms(2) show ?thesis by (simp add: matchComma_def Let_def)
qed

lemma matchComma_elim:
  assumes "matchComma s = Some (g1, rest)"
  shows "\<exists>ws c. s = CHR '','' # ws @ c # rest \<and> (\<forall>x \<in> set ws. isSpace x) \<and>
           (c = CHR ''}'' \<or> c = CHR '']'') \<and> g1 = ws @ [c]"
proof -
  from assms obtain r where s: "s = CHR '','' # r"
    by (cases s) (auto simp: matchComma_def split: if_splits)
  define ws where "ws = takeWhile isSpace r"
  have r: "r = ws @ dropWhile isSpace r" by (simp add: ws_def)
  from assms s obtain c where c: "dropWhile isSpace r = c # rest"
    "c = CHR ''}'' \<or> c = CHR '']''" "g1 = ws @ [c]"
    by (auto simp: matchComma_def Let_def ws_def split: if_splits list.splits)
  have "\<forall>x \<in> set ws. isSpace x"
    by (auto simp: ws_def dest: set_takeWhileD)
  moreover from s r c have "s = CHR '','' # ws @ c # rest" by simp
  ultimately show ?thesis using c by blast
qed

lemma matchComma_extend:
  assumes "matchComma s = Some (g1, rest)"
  shows "matchComma (s @ z) = Some (g1, rest @ z)"
proof -
  from matchComma_elim [OF assms] obtain ws c where
    s: "s = CHR '','' # ws @ c # rest" and h: "\<forall>x \<in> set ws. isSpace x"
      "c = CHR ''}'' \<or> c = CHR '']''" and g: "g1 = ws @ [c]"
    by blast
  from s have "s @ z = CHR '','' # ws @ c # (rest @ z)" by simp
  with matchComma_intro [OF h, of "rest @ z"] g show ?thesis by simp
qed

lemma matchComma_restrict:
  assumes m: "matchComma ((c # cs) @ e # y) = Some (g1, rest)"
    and e: "\<not> isSpace e" "e \<noteq> CHR ''}''" "e \<noteq> CHR '']''"
  shows "\<exists>z. matchComma (c # cs) = Some (g1, z)"
proof -
  from matchComma_elim [OF m] obtain ws c' where
    s: "(c # cs) @ e # y = CHR '','' # ws @ c' # rest" and h: "\<forall>x \<in> set ws. isSpace x"
      "c' = CHR ''}'' \<or> c' = CHR '']''" and g: "g1 = ws @ [c']"
    by blast
  from s have c: "c = CHR '',''" and cs: "cs @ e # y = (ws @ [c']) @ rest"
    by simp_all
  have ne: "e \<notin> set (ws @ [c'])"
    using h e by auto
  from append_cut [OF cs ne] obtain z where z: "cs = (ws @ [c']) @ z" ..
  have "c # cs = CHR '','' # ws @ c' # z"
    unfolding c z by simp
  then have "matchComma (c # cs) = Some (ws @ [c'], z)"
    using matchComma_intro [OF h, of z] by (simp only:)
  with g show ?thesis by blast
qed

lemma removeTrailingCommas_split:
  assumes e: "\<not> isSpace e" "e \<noteq> CHR ''}''" "e \<noteq> CHR '']''"
  shows "removeTrailingCommas (pre @ e # y) =
         removeTrailingCommas pre @ removeTrailingCommas (e # y)"
proof (induction "length pre" arbitrary: pre rule: less_induct)
  case less
  show ?case
  proof (cases pre)
    case Nil
    then show ?thesis by simp
  next
    case (Cons c cs)
    show ?thesis
    proof (cases "matchComma (c # cs)")
      case None
      have "matchComma ((c # cs) @ e # y) = None"
      proof (rule ccontr)
        assume "matchComma ((c # cs) @ e # y) \<noteq> None"
        then obtain g1 rest where "matchComma ((c # cs) @ e # y) = Some (g1, rest)"
          by auto
        from matchComma_restrict [OF this e] None show False by simp
      qed
      moreover have "removeTrailingCommas (cs @ e # y) =
          removeTrailingCommas cs @ removeTrailingCommas (e # y)"
        using less [of cs] Cons by simp
      ultimately show ?thesis using None Cons by simp
    next
      case (Some m)
      then obtain g1 rest where m: "matchComma (c # cs) = Some (g1, rest)"
        by (cases m) auto
      then have "matchComma ((c # cs) @ e # y) = Some (g1, rest @ e # y)"
        by (rule matchComma_extend)
      moreover have "length rest < length pre"
        using matchComma_shorter [OF m] Cons by simp
      then have "removeTrailingCommas (rest @ e # y) =
          removeTrailingCommas rest @ removeTrailingCommas (e # y)"
        by (rule less)
      ultimately show ?thesis using m Cons by simp
    qed
  qed
qed

lemma matchComma_other: "c \<noteq> CHR '','' \<Longrightarrow> matchComma (c # r) = None"
  by (simp add: matchComma_def)

lemma removeTrailingCommas_copy:
  "CHR '','' \<notin> set xs \<Longrightarrow> removeTrailingCommas (xs @ ys) = xs @ removeTrailingCommas ys"
proof (induction xs)
  case Nil
  show ?case by simp
next
  case (Cons x xs)
  then have "x \<noteq> CHR '',''" by auto
  then have "matchComma (x # xs @ ys) = None" by (rule matchComma_other)
  with Cons show ?case by simp
qed

lemma comma_class: "\<not> isSpace CHR '',''" "\<not> isIdentPart CHR '',''"
  by (simp_all add: isSpace_def isIdentPart_def isIdentStart_def isDigit_def)

lemma removeTrailingCommas_key:
  assumes d: "d = CHR ''{'' \<or> d = CHR '',''"
    and ws: "\<forall>c \<in> set ws. isSpace c"
    and ident: "\<forall>c \<in> set ident. isIdentPart c"
    and ws2: "\<forall>c \<in> set ws2. isSpace c"
  shows "removeTrailingCommas (pre @ d # ws @ dquote # ident @ dquote # ws2 @ CHR '':'' # post) =
         removeTrailingCommas pre @ d # ws @ dquote # ident @ dquote # ws2 @ CHR '':'' #
           removeTrailingCommas post"
proof -
  let ?mid = "ws @ dquote # ident @ dquote # ws2 @ '':''"
  have dq: "\<not> isSpace dquote" "dquote \<noteq> CHR ''}''" "dquote \<noteq> CHR '']''" "dquote \<noteq> CHR '',''"
    by (simp_all add: dquote_def isSpace_def)
  have "dropWhile isSpace (ws @ dquote # ident @ dquote # ws2 @ CHR '':'' # post) =
      dquote # ident @ dquote # ws2 @ CHR '':'' # post"
    using ws dq by (simp add: dropWhile_run)
  then have "matchComma (d # ws @ dquote # ident @ dquote # ws2 @ CHR '':'' # post) = None"
    using dq by (simp add: matchComma_def Let_def)
  then have 1: "removeTrailingCommas (d # ws @ dquote # ident @ dquote # ws2 @ CHR '':'' # post)
      = d # removeTrailingCommas (?mid @ post)"
    by simp
  have "CHR '','' \<notin> set ws" "CHR '','' \<notin> set ident" "CHR '','' \<notin> set ws2"
    using ws ident ws2 comma_class by blast+
  then have "CHR '','' \<notin> set ?mid"
    using dq by simp
  then have 2: "removeTrailingCommas (?mid @ post) = ?mid @ removeTrailingCommas post"
    by (rule removeTrailingCommas_copy)
  have "removeTrailingCommas (pre @ d # ws @ dquote # ident @ dquote # ws2 @ CHR '':'' # post) =
      removeTrailingCommas pre @
      removeTrailingCommas (d # ws @ dquote # ident @ dquote # ws2 @ CHR '':'' # post)"
    using opener_class [OF d] d by (intro removeTrailingCommas_split) auto
  with 1 2 show ?thesis by simp
qed

text \<open>
  The scan copies a run of characters that has no quote and no backslash as it is,
  wherever the run stands in the text.
\<close>

lemma scan_plain:
  assumes "squote \<notin> set seg" "dquote \<notin> set seg" "backslash \<notin> set seg"
  shows "scanNormal (seg @ post) = seg @ scanNormal post"
    and "scanSingle (seg @ post) = seg @ scanSingle post"
    and "scanDouble (seg @ post) = seg @ scanDouble post"
  using assms by (induction seg) auto

lemma contains_prepend:
  "\<exists>P Q. X = P @ seg @ Q \<Longrightarrow> \<exists>P Q. out @ X = P @ seg @ (Q :: string)"
proof -
  assume "\<exists>P Q. X = P @ seg @ Q"
  then obtain P Q where "X = P @ seg @ Q" by blast
  then have "out @ X = (out @ P) @ seg @ Q" by simp
  then show ?thesis by blast
qed

lemma contains_Cons:
  "\<exists>P Q. X = P @ seg @ Q \<Longrightarrow> \<exists>P Q. c # X = P @ seg @ (Q :: string)"
  using contains_prepend [of X seg "[c]"] by simp

lemma contains_Cons2:
  "\<exists>P Q. X = P @ seg @ Q \<Longrightarrow> \<exists>P Q. c # e # X = P @ seg @ (Q :: string)"
  using contains_prepend [of X seg "[c, e]"] by simp

lemma scan_keeps:
  assumes plain: "squote \<notin> set seg" "dquote \<notin> set seg" "backslash \<notin> set seg"
  shows "(\<exists>P Q. scanNormal (pre @ seg @ post) = P @ seg @ Q) \<and>
         (\<exists>P Q. scanSingle (pre @ seg @ post) = P @ seg @ Q) \<and>
         (\<exists>P Q. scanDouble (pre @ seg @ post) = P @ seg @ Q)"
proof (induction "length pre" arbitrary: pre rule: less_induct)
  case less
  show ?case
  proof (cases pre)
    case Nil
    have "scanNormal (seg @ post) = [] @ seg @ scanNormal post"
      "scanSingle (seg @ post) = [] @ seg @ scanSingle post"
      "scanDouble (seg @ post) = [] @ seg @ scanDouble post"
      using scan_plain [OF plain] by simp_all
    with Nil show ?thesis by (metis append_Nil)
  next
    case (Cons c cs)
    have ih: "\<exists>P Q. scanNormal (cs @ seg @ post) = P @ seg @ Q"
      "\<exists>P Q. scanSingle (cs @ seg @ post) = P @ seg @ Q"
      "\<exists>P Q. scanDouble (cs @ seg @ post) = P @ seg @ Q"
      using less [of cs] Cons by simp_all
    have n: "\<exists>P Q. scanNormal ((c # cs) @ seg @ post) = P @ seg @ Q"
      using ih by (auto intro: contains_Cons)
    have after_backslash: "\<exists>P Q. backslash # seg @ post' = P @ seg @ Q" for post' :: string
    proof -
      have "backslash # seg @ post' = [backslash] @ seg @ post'" by simp
      then show ?thesis by blast
    qed
    have s: "\<exists>P Q. scanSingle ((c # cs) @ seg @ post) = P @ seg @ Q"
    proof (cases "c = backslash")
      case True
      show ?thesis
      proof (cases cs)
        case Nil
        show ?thesis
        proof (cases seg)
          case Nil
          have "scanSingle ((c # cs) @ seg @ post) = scanSingle ((c # cs) @ seg @ post) @ seg @ []"
            using Nil by simp
          then show ?thesis by blast
        next
          case (Cons e seg')
          with plain have e: "e \<noteq> squote" "e \<noteq> dquote"
            and p': "squote \<notin> set seg'" "dquote \<notin> set seg'" "backslash \<notin> set seg'"
            by auto
          have "scanSingle (backslash # e # seg' @ post) = backslash # e # scanSingle (seg' @ post)"
            using e by simp
          also have "\<dots> = backslash # e # seg' @ scanSingle post"
            using scan_plain(2) [OF p'] by simp
          finally have "scanSingle ((c # cs) @ seg @ post) = [backslash] @ seg @ scanSingle post"
            using True \<open>cs = []\<close> Cons by simp
          then show ?thesis by blast
        qed
      next
        case (Cons e cs')
        have "\<exists>P Q. scanSingle (cs' @ seg @ post) = P @ seg @ Q"
          using less [of cs'] \<open>pre = c # cs\<close> Cons by simp
        then show ?thesis
          using True Cons by (auto intro: contains_Cons contains_Cons2)
      qed
    next
      case False
      then show ?thesis using ih by (auto intro: contains_Cons contains_Cons2)
    qed
    have d: "\<exists>P Q. scanDouble ((c # cs) @ seg @ post) = P @ seg @ Q"
    proof (cases "c = backslash")
      case True
      show ?thesis
      proof (cases cs)
        case Nil
        show ?thesis
        proof (cases seg)
          case Nil
          have "scanDouble ((c # cs) @ seg @ post) = scanDouble ((c # cs) @ seg @ post) @ seg @ []"
            using Nil by simp
          then show ?thesis by blast
        next
          case (Cons e seg')
          with plain have p': "squote \<notin> set seg'" "dquote \<notin> set seg'" "backslash \<notin> set seg'"
            by auto
          have "scanDouble (backslash # e # seg' @ post) = backslash # e # scanDouble (seg' @ post)"
            by simp
          also have "\<dots> = backslash # e # seg' @ scanDouble post"
            using scan_plain(3) [OF p'] by simp
          finally have "scanDouble ((c # cs) @ seg @ post) = [backslash] @ seg @ scanDouble post"
            using True \<open>cs = []\<close> Cons by simp
          then show ?thesis by blast
        qed
      next
        case (Cons e cs')
        have "\<exists>P Q. scanDouble (cs' @ seg @ post) = P @ seg @ Q"
          using less [of cs'] \<open>pre = c # cs\<close> Cons by simp
        then show ?thesis
          using True Cons by (auto intro: contains_Cons2)
      qed
    next
      case False
      then show ?thesis using ih by (auto intro: contains_Cons)
    qed
    from n s d Cons show ?thesis by simp
  qed
qed

lemma space_plain: "isSpace c \<Longrightarrow> c \<noteq> squote \<and> c \<noteq> dquote \<and> c \<noteq> backslash"
  by (auto simp: isSpace_def squote_def dquote_def backslash_def)

lemma identPart_plain: "isIdentPart c \<Longrightarrow> c \<noteq> squote \<and> c \<noteq> dquote \<and> c \<noteq> backslash"
  by (auto simp: isIdentPart_def isIdentStart_def isDigit_def squote_def dquote_def backslash_def)

lemma key_segment_plain:
  assumes d: "d = CHR ''{'' \<or> d = CHR '',''"
    and ws: "\<forall>c \<in> set ws. isSpace c"
    and ident: "\<forall>c \<in> set ident. isIdentPart c"
    and ws2: "\<forall>c \<in> set ws2. isSpace c"
  shows "squote \<notin> set (d # ws @ ident @ ws2 @ '':'')"
    and "dquote \<notin> set (d # ws @ ident @ ws2 @ '':'')"
    and "backslash \<notin> set (d # ws @ ident @ ws2 @ '':'')"
proof -
  have c: "CHR '':'' \<noteq> squote" "CHR '':'' \<noteq> dquote" "CHR '':'' \<noteq> backslash"
    "d \<noteq> squote" "d \<noteq> dquote" "d \<noteq> backslash"
    using d by (auto simp: squote_def dquote_def backslash_def)
  have "squote \<notin> set ws" "dquote \<notin> set ws" "backslash \<notin> set ws"
    "squote \<notin> set ws2" "dquote \<notin> set ws2" "backslash \<notin> set ws2"
    using ws ws2 space_plain by blast+
  moreover have "squote \<notin> set ident" "dquote \<notin> set ident" "backslash \<notin> set ident"
    using ident identPart_plain by blast+
  ultimately show "squote \<notin> set (d # ws @ ident @ ws2 @ '':'')"
    and "dquote \<notin> set (d # ws @ ident @ ws2 @ '':'')"
    and "backslash \<notin> set (d # ws @ ident @ ws2 @ '':'')"
    using c by auto
qed

text \<open>
  C8. Wherever an identifier (\<^verbatim>\<open>[A-Za-z_$][A-Za-z0-9_$]*\<close>) follows \<^verbatim>\<open>{\<close> or a comma,
  with optional white space, and precedes a colon, with optional white space, the key
  rewrite wraps it in double quotes and rewrites the text before and after on their
  own; the scan before it keeps the identifier and its surroundings, the comma rewrite
  after it keeps the wrapped identifier, so the normalized text has the identifier in
  double quotes. \<^verbatim>\<open>{a: 1, b: 2}\<close> decodes to a mapping with the keys \<^verbatim>\<open>a\<close> and \<^verbatim>\<open>b\<close>.
\<close>

theorem unquoted_keys_are_quoted:
  assumes d: "d = CHR ''{'' \<or> d = CHR '',''"
    and ws: "\<forall>c \<in> set ws. isSpace c"
    and ident: "ident \<noteq> []" "isIdentStart (hd ident)" "\<forall>c \<in> set ident. isIdentPart c"
    and ws2: "\<forall>c \<in> set ws2. isSpace c"
  shows \<open>quoteKeys (pre @ d # ws @ ident @ ws2 @ '':'' @ post) =
           quoteKeys pre @ d # ws @ dquote # ident @ dquote # ws2 @ '':'' @ quoteKeys post \<and>
         (\<exists>P Q. scanNormal (pre @ d # ws @ ident @ ws2 @ '':'' @ post) =
                  P @ d # ws @ ident @ ws2 @ '':'' @ Q \<and>
                normalizeToJSON (pre @ d # ws @ ident @ ws2 @ '':'' @ post) =
                  removeTrailingCommas (quoteKeys P) @
                  d # ws @ dquote # ident @ dquote # ws2 @ '':'' @
                  removeTrailingCommas (quoteKeys Q)) \<and>
         parseJSON JSON_parse (Some (JStr ''{a: 1, b: 2}'')) None =
           Inr (JObj [(''a'', JNum ''1''), (''b'', JNum ''2'')])\<close>
proof -
  have A: "quoteKeys (pre @ d # ws @ ident @ ws2 @ '':'' @ post) =
      quoteKeys pre @ d # ws @ dquote # ident @ dquote # ws2 @ '':'' @ quoteKeys post" for pre post
    using quoteKeys_key [OF d ws ident ws2, of pre post] by simp
  let ?seg = "d # ws @ ident @ ws2 @ '':''"
  from scan_keeps [OF key_segment_plain [OF d ws ident(3) ws2], of pre post]
  obtain P Q where PQ: "scanNormal (pre @ ?seg @ post) = P @ ?seg @ Q" by blast
  have "normalizeToJSON (pre @ ?seg @ post) =
      removeTrailingCommas (quoteKeys (P @ d # ws @ ident @ ws2 @ '':'' @ Q))"
    using PQ by (simp add: normalizeToJSON_def)
  also have "\<dots> = removeTrailingCommas
      (quoteKeys P @ d # ws @ dquote # ident @ dquote # ws2 @ '':'' @ quoteKeys Q)"
    by (simp only: A)
  also have "\<dots> = removeTrailingCommas (quoteKeys P) @
      d # ws @ dquote # ident @ dquote # ws2 @ '':'' @ removeTrailingCommas (quoteKeys Q)"
    using removeTrailingCommas_key [OF d ws ident(3) ws2, of "quoteKeys P" "quoteKeys Q"]
    by simp
  finally have B: "\<exists>P Q. scanNormal (pre @ d # ws @ ident @ ws2 @ '':'' @ post) =
                  P @ d # ws @ ident @ ws2 @ '':'' @ Q \<and>
                normalizeToJSON (pre @ d # ws @ ident @ ws2 @ '':'' @ post) =
                  removeTrailingCommas (quoteKeys P) @
                  d # ws @ dquote # ident @ dquote # ws2 @ '':'' @
                  removeTrailingCommas (quoteKeys Q)"
    using PQ by auto
  have C: "parseJSON JSON_parse (Some (JStr ''{a: 1, b: 2}'')) None =
           Inr (JObj [(''a'', JNum ''1''), (''b'', JNum ''2'')])"
    by code_simp
  from A B C show ?thesis by blast
qed

theorem unquoted_keys_are_quoted_witness:
  \<open>quoteKeys ''{x: 0, b1 : 2}'' = ''{"x": 0, "b1" : 2}''\<close>
proof -
  have d: "CHR '','' = CHR ''{'' \<or> CHR '','' = CHR '',''" by simp
  have ws: "\<forall>c \<in> set '' ''. isSpace c" by (simp add: isSpace_def)
  have ident: "''b1'' \<noteq> []" "isIdentStart (hd ''b1'')" "\<forall>c \<in> set ''b1''. isIdentPart c"
    by (simp_all add: isIdentPart_def isIdentStart_def isDigit_def)
  have k: "quoteKeys (''{x: 0'' @ CHR '','' # '' '' @ ''b1'' @ '' '' @ '':'' @ '' 2}'') =
      quoteKeys ''{x: 0'' @ CHR '','' # '' '' @ dquote # ''b1'' @ dquote # '' '' @ '':'' @
        quoteKeys '' 2}''"
    using unquoted_keys_are_quoted [OF d ws ident ws, of "''{x: 0''" "'' 2}''"] by blast
  have p: \<open>quoteKeys ''{x: 0'' = ''{"x": 0''\<close> "quoteKeys '' 2}'' = '' 2}''"
    by code_simp+
  show ?thesis
    using k unfolding p by (simp add: dquote_def del: quoteKeys.simps)
qed

subsection \<open>Single-quoted runs\<close>

lemma quote_chars:
  "squote \<noteq> dquote" "squote \<noteq> backslash" "dquote \<noteq> backslash"
  "dquote \<noteq> squote" "backslash \<noteq> squote" "backslash \<noteq> dquote"
  "\<not> (of_char squote :: nat) < 32" "CHR ''u'' \<noteq> squote" "CHR ''u'' \<noteq> dquote"
  "CHR ''u'' \<noteq> backslash" "unescape dquote = Some dquote"
  "squote \<noteq> CHR ''u''" "dquote \<noteq> CHR ''u''" "backslash \<noteq> CHR ''u''"
  by (simp_all add: squote_def dquote_def backslash_def unescape_def)

lemma hexDigit_plain:
  "isHexDigit h \<Longrightarrow> h \<noteq> squote \<and> h \<noteq> dquote \<and> h \<noteq> backslash \<and> \<not> (of_char h :: nat) < 32"
  by (auto simp: isHexDigit_def squote_def dquote_def backslash_def)

lemma unescape_not_u: "unescape CHR ''u'' = None"
  by (simp add: unescape_def dquote_def backslash_def)

lemma single_quoted_run:
  "singleQuotedValue body = Some v \<Longrightarrow>
     scanSingle (body @ squote # rest) = toDoubleQuoted body @ dquote # scanNormal rest \<and>
     lexString (toDoubleQuoted body @ dquote # tail) = Some (v, tail)"
proof (induction "length body" arbitrary: body v rule: less_induct)
  case less
  note q = quote_chars
  show ?case
  proof (cases body)
    case Nil
    with less.prems show ?thesis by (simp add: q)
  next
    case (Cons c cs)
    show ?thesis
    proof (cases "c = backslash")
      case True
      with less.prems Cons obtain e cs' where cs: "cs = e # cs'"
        by (cases cs) auto
      show ?thesis
      proof (cases "e = squote")
        case True
        with less.prems Cons cs \<open>c = backslash\<close>
        obtain v' where v': "singleQuotedValue cs' = Some v'" "v = squote # v'"
          by auto
        have "scanSingle (cs' @ squote # rest) = toDoubleQuoted cs' @ dquote # scanNormal rest \<and>
            lexString (toDoubleQuoted cs' @ dquote # tail) = Some (v', tail)"
          using less.hyps [of cs' v'] v' Cons cs by simp
        with True Cons cs \<open>c = backslash\<close> v' show ?thesis
          by (simp add: q)
      next
        case False
        note ne = False
        show ?thesis
        proof (cases "e = CHR ''u''")
          case True
          with less.prems Cons cs \<open>c = backslash\<close>
          obtain h1 h2 h3 h4 cs'' v' where
            h: "cs' = h1 # h2 # h3 # h4 # cs''"
              "isHexDigit h1" "isHexDigit h2" "isHexDigit h3" "isHexDigit h4"
              "hexValue h1 = 0" "hexValue h2 = 0"
              "singleQuotedValue cs'' = Some v'"
              "v = char_of (16 * hexValue h3 + hexValue h4) # v'"
            by (auto simp: q split: list.splits if_splits)
          have ih: "scanSingle (cs'' @ squote # rest) =
              toDoubleQuoted cs'' @ dquote # scanNormal rest \<and>
              lexString (toDoubleQuoted cs'' @ dquote # tail) = Some (v', tail)"
            using less.hyps [of cs'' v'] h Cons cs by simp
          have p: "h1 \<noteq> squote" "h1 \<noteq> dquote" "h1 \<noteq> backslash"
            "h2 \<noteq> squote" "h2 \<noteq> dquote" "h2 \<noteq> backslash"
            "h3 \<noteq> squote" "h3 \<noteq> dquote" "h3 \<noteq> backslash"
            "h4 \<noteq> squote" "h4 \<noteq> dquote" "h4 \<noteq> backslash"
            using h hexDigit_plain by blast+
          have 1: "scanSingle (body @ squote # rest) =
              backslash # CHR ''u'' # h1 # h2 # h3 # h4 # scanSingle (cs'' @ squote # rest)"
            using Cons cs \<open>c = backslash\<close> True h(1) p by (simp add: q)
          have 2: "toDoubleQuoted body =
              backslash # CHR ''u'' # h1 # h2 # h3 # h4 # toDoubleQuoted cs''"
            using Cons cs \<open>c = backslash\<close> True h(1) p by (simp add: q)
          have 3: "lexString (backslash # CHR ''u'' # h1 # h2 # h3 # h4 # X) =
              (case lexString X of None \<Rightarrow> None
               | Some (str, r) \<Rightarrow> Some (char_of (16 * hexValue h3 + hexValue h4) # str, r))" for X
            using h by (simp add: q)
          from 1 2 3 ih h(9) show ?thesis by simp
        next
          case False
          with less.prems Cons cs \<open>c = backslash\<close> ne
          obtain ch v' where v': "unescape e = Some ch" "singleQuotedValue cs' = Some v'" "v = ch # v'"
            by (auto split: option.splits)
          have ih: "scanSingle (cs' @ squote # rest) =
              toDoubleQuoted cs' @ dquote # scanNormal rest \<and>
              lexString (toDoubleQuoted cs' @ dquote # tail) = Some (v', tail)"
            using less.hyps [of cs' v'] v' Cons cs by simp
          have 1: "scanSingle (body @ squote # rest) =
              backslash # e # scanSingle (cs' @ squote # rest)"
            using Cons cs \<open>c = backslash\<close> ne by simp
          have 2: "toDoubleQuoted body = backslash # e # toDoubleQuoted cs'"
            using Cons cs \<open>c = backslash\<close> ne by simp
          have 3: "lexString (backslash # e # X) =
              (case lexString X of None \<Rightarrow> None | Some (str, r) \<Rightarrow> Some (ch # str, r))" for X
            using False v'(1) by (simp add: q)
          from 1 2 3 ih v'(3) show ?thesis by simp
        qed
      qed
    next
      case False
      with less.prems Cons obtain v' where
        v': "c \<noteq> squote" "\<not> (of_char c :: nat) < 32" "singleQuotedValue cs = Some v'" "v = c # v'"
        by (auto split: if_splits)
      have ih: "scanSingle (cs @ squote # rest) =
          toDoubleQuoted cs @ dquote # scanNormal rest \<and>
          lexString (toDoubleQuoted cs @ dquote # tail) = Some (v', tail)"
        using less.hyps [of cs v'] v' Cons by simp
      show ?thesis
      proof (cases "c = dquote")
        case True
        with Cons False ih v' show ?thesis by (simp add: q)
      next
        case nd: False
        with Cons False ih v' show ?thesis by simp
      qed
    qed
  qed
qed

text \<open>
  A match of either rewrite has no double quote in it. So the rewrites work on the text
  before a double quote and on the text after it separately.
\<close>

lemma dquote_class:
  "\<not> isSpace dquote" "\<not> isIdentPart dquote" "dquote \<noteq> CHR '':''"
  "dquote \<noteq> CHR ''{''" "dquote \<noteq> CHR '',''" "dquote \<noteq> CHR ''}''" "dquote \<noteq> CHR '']''"
  by (simp_all add: dquote_def isSpace_def isIdentPart_def isIdentStart_def isDigit_def)

lemma matchKey_other: "c \<noteq> CHR ''{'' \<Longrightarrow> c \<noteq> CHR '','' \<Longrightarrow> matchKey (c # r) = None"
  by (simp add: matchKey_def)

lemma matchKey_cut:
  assumes m: "matchKey ((c # cs) @ e # y) = Some (g1, g2, g3, rest)"
    and e: "\<not> isSpace e" "\<not> isIdentPart e" "e \<noteq> CHR '':''"
  shows "\<exists>z. matchKey (c # cs) = Some (g1, g2, g3, z)"
proof -
  from matchKey_elim [OF m] obtain d0 ws ident ws2 where
    s: "(c # cs) @ e # y = d0 # ws @ ident @ ws2 @ CHR '':'' # rest" and
    h: "d0 = CHR ''{'' \<or> d0 = CHR '',''" "\<forall>c \<in> set ws. isSpace c"
      "ident \<noteq> []" "isIdentStart (hd ident)" "\<forall>c \<in> set ident. isIdentPart c"
      "\<forall>c \<in> set ws2. isSpace c" and
    g: "g1 = d0 # ws" "g2 = ident" "g3 = ws2 @ '':''"
    by blast
  from s have c: "c = d0" and cs: "cs @ e # y = (ws @ ident @ ws2 @ '':'') @ rest"
    by simp_all
  have nd: "e \<notin> set (ws @ ident @ ws2 @ '':'')"
    using h e by auto
  from append_cut [OF cs nd] obtain z where z: "cs = (ws @ ident @ ws2 @ '':'') @ z" ..
  have "c # cs = d0 # ws @ ident @ ws2 @ CHR '':'' # z"
    unfolding c z by simp
  then have "matchKey (c # cs) = Some (d0 # ws, ident, ws2 @ '':'', z)"
    using matchKey_intro [OF h, of z] by (simp only:)
  with g show ?thesis by blast
qed

lemma quoteKeys_cut:
  assumes e: "\<not> isSpace e" "\<not> isIdentPart e" "e \<noteq> CHR '':''"
  shows "quoteKeys (pre @ e # y) = quoteKeys pre @ quoteKeys (e # y)"
proof (induction "length pre" arbitrary: pre rule: less_induct)
  case less
  show ?case
  proof (cases pre)
    case Nil
    then show ?thesis by simp
  next
    case (Cons c cs)
    show ?thesis
    proof (cases "matchKey (c # cs)")
      case None
      have "matchKey ((c # cs) @ e # y) = None"
      proof (rule ccontr)
        assume "matchKey ((c # cs) @ e # y) \<noteq> None"
        then obtain g1 g2 g3 rest where "matchKey ((c # cs) @ e # y) = Some (g1, g2, g3, rest)"
          by auto
        from matchKey_cut [OF this e] None show False by simp
      qed
      moreover have "quoteKeys (cs @ e # y) = quoteKeys cs @ quoteKeys (e # y)"
        using less [of cs] Cons by simp
      ultimately show ?thesis using None Cons by simp
    next
      case (Some m)
      then obtain g1 g2 g3 rest where m: "matchKey (c # cs) = Some (g1, g2, g3, rest)"
        by (cases m) auto
      then have "matchKey ((c # cs) @ e # y) = Some (g1, g2, g3, rest @ e # y)"
        by (rule matchKey_extend)
      moreover have "length rest < length pre"
        using matchKey_shorter [OF m] Cons by simp
      then have "quoteKeys (rest @ e # y) = quoteKeys rest @ quoteKeys (e # y)"
        by (rule less)
      ultimately show ?thesis using m Cons by simp
    qed
  qed
qed

lemma quoteKeys_at_quote:
  "quoteKeys (pre @ dquote # y) = quoteKeys pre @ dquote # quoteKeys y"
proof -
  have "matchKey (dquote # y) = None"
    using dquote_class by (intro matchKey_other)
  then have "quoteKeys (dquote # y) = dquote # quoteKeys y" by simp
  with quoteKeys_cut [of dquote pre y] dquote_class show ?thesis by simp
qed

lemma removeTrailingCommas_at_quote:
  "removeTrailingCommas (pre @ dquote # y) =
   removeTrailingCommas pre @ dquote # removeTrailingCommas y"
proof -
  have "matchComma (dquote # y) = None"
    using dquote_class by (intro matchComma_other)
  then have "removeTrailingCommas (dquote # y) = dquote # removeTrailingCommas y" by simp
  with removeTrailingCommas_split [of dquote pre y] dquote_class show ?thesis by simp
qed

lemma rewrites_at_quote:
  "removeTrailingCommas (quoteKeys (pre @ dquote # y)) =
   removeTrailingCommas (quoteKeys pre) @ dquote # removeTrailingCommas (quoteKeys y)"
  by (simp only: quoteKeys_at_quote removeTrailingCommas_at_quote)

text \<open>
  The conversion adds backslashes only, and the rewrites find nothing in a text without
  \<^verbatim>\<open>{\<close> and comma.
\<close>

lemma quoteKeys_none:
  "CHR ''{'' \<notin> set xs \<Longrightarrow> CHR '','' \<notin> set xs \<Longrightarrow> quoteKeys xs = xs"
proof (induction xs)
  case Nil
  show ?case by simp
next
  case (Cons x xs)
  then have "x \<noteq> CHR ''{''" "x \<noteq> CHR '',''" by auto
  then have "matchKey (x # xs) = None" by (rule matchKey_other)
  with Cons show ?case by simp
qed

lemma toDoubleQuoted_chars:
  "set (toDoubleQuoted body) \<subseteq> insert backslash (set body)"
proof (induction "length body" arbitrary: body rule: less_induct)
  case less
  show ?case
  proof (cases body)
    case Nil
    then show ?thesis by simp
  next
    case (Cons c cs)
    show ?thesis
    proof (cases "c = backslash")
      case True
      show ?thesis
      proof (cases cs)
        case Nil
        with Cons True show ?thesis by simp
      next
        case cs: (Cons e cs')
        have "set (toDoubleQuoted cs') \<subseteq> insert backslash (set cs')"
          using less [of cs'] Cons cs by simp
        moreover have "toDoubleQuoted body =
            (if e = squote then squote # toDoubleQuoted cs'
             else backslash # e # toDoubleQuoted cs')"
          using Cons cs True by simp
        ultimately show ?thesis
          using Cons cs True by (cases "e = squote") auto
      qed
    next
      case False
      have "set (toDoubleQuoted cs) \<subseteq> insert backslash (set cs)"
        using less [of cs] Cons by simp
      moreover have "toDoubleQuoted body =
          (if c = dquote then backslash # dquote # toDoubleQuoted cs
           else c # toDoubleQuoted cs)"
        using Cons False by simp
      ultimately show ?thesis
        using Cons by (cases "c = dquote") auto
    qed
  qed
qed

lemma rewritesKeep_plain:
  assumes "CHR ''{'' \<notin> set body" "CHR '','' \<notin> set body"
  shows "rewritesKeep (toDoubleQuoted body)"
proof -
  have "backslash \<noteq> CHR ''{''" "backslash \<noteq> CHR '',''"
    by (simp_all add: backslash_def)
  with assms toDoubleQuoted_chars [of body]
  have n: "CHR ''{'' \<notin> set (toDoubleQuoted body)" "CHR '','' \<notin> set (toDoubleQuoted body)"
    by auto
  then have "quoteKeys (toDoubleQuoted body) = toDoubleQuoted body"
    by (rule quoteKeys_none)
  moreover have "removeTrailingCommas (toDoubleQuoted body) = toDoubleQuoted body"
    using removeTrailingCommas_copy [OF n(2), of "[]"] by simp
  ultimately show ?thesis by (simp add: rewritesKeep_def)
qed

text \<open>
  A single-quoted run after text without quotes and backslashes, through the whole
  Normalizer.
\<close>

lemma normalize_run:
  assumes v: "singleQuotedValue body = Some v"
    and keep: "rewritesKeep (toDoubleQuoted body)"
    and plain: "squote \<notin> set plain" "dquote \<notin> set plain" "backslash \<notin> set plain"
  shows "normalizeToJSON (plain @ squote # body @ squote # rest) =
         normalizeToJSON plain @ dquote # toDoubleQuoted body @ dquote # normalizeToJSON rest"
proof -
  have r: "scanSingle (body @ squote # rest) = toDoubleQuoted body @ dquote # scanNormal rest"
    using single_quoted_run [OF v] by blast
  have "scanNormal (plain @ squote # body @ squote # rest) =
      plain @ scanNormal (squote # body @ squote # rest)"
    using plain by (rule scan_plain)
  also have "scanNormal (squote # body @ squote # rest) = dquote # scanSingle (body @ squote # rest)"
    by simp
  finally have s: "scanNormal (plain @ squote # body @ squote # rest) =
      plain @ dquote # toDoubleQuoted body @ dquote # scanNormal rest"
    using r by simp
  have p: "scanNormal plain = plain"
    using scan_plain(1) [OF plain, of "[]"] by simp
  have "removeTrailingCommas (quoteKeys (plain @ dquote # toDoubleQuoted body @ dquote # scanNormal rest)) =
      removeTrailingCommas (quoteKeys plain) @ dquote #
        removeTrailingCommas (quoteKeys (toDoubleQuoted body @ dquote # scanNormal rest))"
    by (rule rewrites_at_quote)
  also have "removeTrailingCommas (quoteKeys (toDoubleQuoted body @ dquote # scanNormal rest)) =
      removeTrailingCommas (quoteKeys (toDoubleQuoted body)) @ dquote #
        removeTrailingCommas (quoteKeys (scanNormal rest))"
    by (rule rewrites_at_quote)
  finally show ?thesis
    using keep s p by (simp add: normalizeToJSON_def rewritesKeep_def)
qed

text \<open>The decoder on an object literal of one double-quoted key and one double-quoted string.\<close>

lemma tokenize_punct:
  assumes "c \<in> set ''{}[],:''"
  shows "tokenize (c # cs) = map_option (Cons (TPunct c)) (tokenize cs)"
proof -
  from assms have "\<not> isJsonSpace c" by (auto simp: isJsonSpace_def)
  with assms show ?thesis by (subst tokenize.simps) (simp only: if_False if_True)
qed

lemma tokenize_string:
  assumes "lexString cs = Some (s, rest)"
  shows "tokenize (dquote # cs) = map_option (Cons (TString s)) (tokenize rest)"
proof -
  have "\<not> isJsonSpace dquote" "dquote \<notin> set ''{}[],:''"
    by (simp_all add: isJsonSpace_def dquote_def)
  with assms show ?thesis
    by (subst tokenize.simps) (simp only: if_False if_True refl option.case prod.case)
qed

lemma tokenize_blank: "tokenize (CHR '' '' # cs) = tokenize cs"
proof -
  have "isJsonSpace CHR '' ''" by (simp add: isJsonSpace_def)
  then show ?thesis by (subst tokenize.simps) (simp only: if_True)
qed

lemma setProperty_first: "setProperty [] k x = [(k, x)]"
  by (simp add: setProperty_def)

lemma braced_text:
  "parsedOf parse (Some (JStr (CHR ''{'' # mid @ ''}''))) =
   parse (normalizeToJSON (CHR ''{'' # mid @ ''}''))"
proof -
  let ?t = "CHR ''{'' # mid @ ''}''"
  have "?t \<noteq> []" "\<not> isSpace (hd ?t)" "\<not> isSpace (last ?t)"
    by (simp_all add: isSpace_def)
  then have tr: "trim ?t = ?t" by (rule trim_self)
  have ts: "trimStart ?t = ?t"
    by (simp add: trimStart_def isSpace_def)
  have "startsWith ?t ''{''"
    by (simp add: startsWith_def)
  then have lk: "looksLikeJSON ?t"
    unfolding looksLikeJSON_def Let_def ts by (rule disjI1)
  have "locateBlock (trim ?t) = Some ?t"
    unfolding tr using lk by (simp only: locateBlock_def if_True)
  then show ?thesis
    by (simp only: parsedOf_text option.case)
qed

lemma object_tokens:
  assumes k: "lexString (tk @ dquote # CHR '':'' # CHR '' '' # dquote # tv @ dquote # ''}'') =
      Some (k, CHR '':'' # CHR '' '' # dquote # tv @ dquote # ''}'')"
    and v: "lexString (tv @ dquote # ''}'') = Some (v, ''}'')"
  shows "tokenize (CHR ''{'' # dquote # tk @ dquote # CHR '':'' # CHR '' '' # dquote # tv @ dquote # ''}'')
         = Some [TPunct CHR ''{'', TString k, TPunct CHR '':'', TString v, TPunct CHR ''}'']"
proof -
  have p: "CHR ''{'' \<in> set ''{}[],:''" "CHR '':'' \<in> set ''{}[],:''" "CHR ''}'' \<in> set ''{}[],:''"
    by simp_all
  have t3: "tokenize ''}'' = Some [TPunct CHR ''}'']"
    using tokenize_punct [OF p(3), of "[]"] by (simp del: tokenize.simps(2))
  have t2: "tokenize (dquote # tv @ dquote # ''}'') = Some [TString v, TPunct CHR ''}'']"
    using tokenize_string [OF v] by (simp only: t3 option.map)
  have t1: "tokenize (CHR '':'' # CHR '' '' # dquote # tv @ dquote # ''}'') =
      Some [TPunct CHR '':'', TString v, TPunct CHR ''}'']"
    using tokenize_punct [OF p(2), of "CHR '' '' # dquote # tv @ dquote # ''}''"]
    by (simp only: tokenize_blank t2 option.map)
  have t0: "tokenize (dquote # tk @ dquote # CHR '':'' # CHR '' '' # dquote # tv @ dquote # ''}'') =
      Some [TString k, TPunct CHR '':'', TString v, TPunct CHR ''}'']"
    using tokenize_string [OF k] by (simp only: t1 option.map)
  show ?thesis
    using tokenize_punct [OF p(1), of "dquote # tk @ dquote # CHR '':'' # CHR '' '' # dquote # tv @ dquote # ''}''"]
    by (simp only: t0 option.map)
qed

lemma object_of_runs:
  assumes k: "singleQuotedValue kbody = Some k" and kk: "rewritesKeep (toDoubleQuoted kbody)"
    and v: "singleQuotedValue body = Some v" and vk: "rewritesKeep (toDoubleQuoted body)"
  shows "parseJSON JSON_parse
           (Some (JStr (''{'' @ squote # kbody @ squote # '': '' @ squote # body @ squote # ''}'')))
           None
         = Inr (JObj [(k, JStr v)])"
proof -
  let ?text = "''{'' @ squote # kbody @ squote # '': '' @ squote # body @ squote # ''}''"
  let ?out = "CHR ''{'' # dquote # toDoubleQuoted kbody @ dquote # CHR '':'' # CHR '' '' #
                dquote # toDoubleQuoted body @ dquote # ''}''"
  have pl: "squote \<notin> set ''{''" "dquote \<notin> set ''{''" "backslash \<notin> set ''{''"
    "squote \<notin> set '': ''" "dquote \<notin> set '': ''" "backslash \<notin> set '': ''"
    by (simp_all add: squote_def dquote_def backslash_def)
  have e: "normalizeToJSON ''{'' = ''{''" "normalizeToJSON '': '' = '': ''"
    "normalizeToJSON ''}'' = ''}''"
    by code_simp+
  have n2: "normalizeToJSON ('': '' @ squote # body @ squote # ''}'') =
      '': '' @ dquote # toDoubleQuoted body @ dquote # ''}''"
    using normalize_run [OF v vk pl(4-6), of "''}''"] unfolding e .
  have "normalizeToJSON ?text = ''{'' @ dquote # toDoubleQuoted kbody @ dquote # '': '' @
                dquote # toDoubleQuoted body @ dquote # ''}''"
    using normalize_run [OF k kk pl(1-3), of "'': '' @ squote # body @ squote # ''}''"]
    unfolding e n2 .
  then have n1: "normalizeToJSON ?text = ?out"
    by (simp only: append.simps)
  have l2: "lexString (toDoubleQuoted body @ dquote # ''}'') = Some (v, ''}'')"
    using single_quoted_run [OF v] by blast
  have l1: "lexString (toDoubleQuoted kbody @ dquote # CHR '':'' # CHR '' '' #
      dquote # toDoubleQuoted body @ dquote # ''}'') =
      Some (k, CHR '':'' # CHR '' '' # dquote # toDoubleQuoted body @ dquote # ''}'')"
    using single_quoted_run [OF k] by blast
  have t0: "tokenize ?out =
      Some [TPunct CHR ''{'', TString k, TPunct CHR '':'', TString v, TPunct CHR ''}'']"
    using l1 l2 by (rule object_tokens)
  have pv: "parseValue [] [TPunct CHR ''{'', TString k, TPunct CHR '':'', TString v, TPunct CHR ''}'']
      = Inr (JObj [(k, JStr v)])"
    by (simp add: memberKey_def setProperty_first)
  have d: "JSON_parse ?out = Inr (JObj [(k, JStr v)])"
    using t0 pv by (simp only: JSON_parse_def option.case)
  have "?text = CHR ''{'' # (squote # kbody @ squote # '': '' @ squote # body @ [squote]) @ ''}''"
    by simp
  then have "parsedOf JSON_parse (Some (JStr ?text)) = JSON_parse (normalizeToJSON ?text)"
    using braced_text [of JSON_parse "squote # kbody @ squote # '': '' @ squote # body @ [squote]"]
    by (simp only:)
  with n1 d show ?thesis
    by (simp only: parseJSON_def sum.case option.case)
qed

text \<open>
  C7, as amended. The body of a single-quoted run denotes a string (\<open>singleQuotedValue\<close>)
  when it is made of characters from 0x20 on other than \<^verbatim>\<open>'\<close> and the backslash, of
  \<^verbatim>\<open>\'\<close>, of the one-letter escapes \<^verbatim>\<open>\"\<close>, \<^verbatim>\<open>\\\<close>, \<^verbatim>\<open>\/\<close>, \<^verbatim>\<open>\b\<close>, \<^verbatim>\<open>\f\<close>, \<^verbatim>\<open>\n\<close>,
  \<^verbatim>\<open>\r\<close>, \<^verbatim>\<open>\t\<close> and of escapes \<^verbatim>\<open>\u00XX\<close> of code units below 0x100. For every such
  run whose converted body the two rewrites leave as it is (\<open>rewritesKeep\<close>; every body
  without \<^verbatim>\<open>{\<close> and comma is such), standing after any text without quotes and backslashes
  and before any text:

  \<^item> the Normalizer, scan and rewrites, emits the run as a double-quoted run: it opens with
    a double quote, unescapes \<^verbatim>\<open>\'\<close> to \<^verbatim>\<open>'\<close>, escapes a bare \<^verbatim>\<open>"\<close> to \<^verbatim>\<open>\"\<close>, copies every
    other character and backslash pair, and closes at the next bare \<^verbatim>\<open>'\<close>; the text
    before the run and the text after it are normalized on their own;

  \<^item> the strict decoder reads the emitted run as the string the single-quoted run denotes;

  \<^item> the object literal \<^verbatim>\<open>{'k': 'v'}\<close> of two such runs decodes to the mapping with the
    one key \<open>k\<close> and the string \<open>v\<close>; \<^verbatim>\<open>{'a': 'b'}\<close> decodes to the mapping
    \<^verbatim>\<open>{"a": "b"}\<close>.
\<close>

theorem single_quoted_to_double_quoted:
  assumes v: "singleQuotedValue body = Some v"
    and keep: "rewritesKeep (toDoubleQuoted body)"
    and plain: "squote \<notin> set plain" "dquote \<notin> set plain" "backslash \<notin> set plain"
    and k: "singleQuotedValue kbody = Some k"
    and kkeep: "rewritesKeep (toDoubleQuoted kbody)"
  shows \<open>normalizeToJSON (plain @ squote # body @ squote # rest) =
           normalizeToJSON plain @ dquote # toDoubleQuoted body @ dquote # normalizeToJSON rest \<and>
         lexString (toDoubleQuoted body @ dquote # tail) = Some (v, tail) \<and>
         parseJSON JSON_parse
           (Some (JStr (''{'' @ squote # kbody @ squote # '': '' @ squote # body @ squote # ''}'')))
           None
           = Inr (JObj [(k, JStr v)]) \<and>
         (CHR ''{'' \<notin> set b \<and> CHR '','' \<notin> set b \<longrightarrow> rewritesKeep (toDoubleQuoted b)) \<and>
         parseJSON JSON_parse (Some (JStr ''{'a': 'b'}'')) None
           = Inr (JObj [(''a'', JStr ''b'')])\<close>
proof -
  have n: "normalizeToJSON (plain @ squote # body @ squote # rest) =
      normalizeToJSON plain @ dquote # toDoubleQuoted body @ dquote # normalizeToJSON rest"
    using v keep plain by (rule normalize_run)
  have l: "lexString (toDoubleQuoted body @ dquote # tail) = Some (v, tail)"
    using single_quoted_run [OF v] by blast
  have o: "parseJSON JSON_parse
      (Some (JStr (''{'' @ squote # kbody @ squote # '': '' @ squote # body @ squote # ''}'')))
      None
      = Inr (JObj [(k, JStr v)])"
    using k kkeep v keep by (rule object_of_runs)
  have p: "CHR ''{'' \<notin> set b \<and> CHR '','' \<notin> set b \<longrightarrow> rewritesKeep (toDoubleQuoted b)"
    using rewritesKeep_plain [of b] by blast
  have e: \<open>parseJSON JSON_parse (Some (JStr ''{'a': 'b'}'')) None
      = Inr (JObj [(''a'', JStr ''b'')])\<close>
    by code_simp
  from n l o p e show ?thesis by blast
qed

theorem single_quoted_to_double_quoted_witness:
  \<open>singleQuotedValue (''it'' @ backslash # squote # ''s "ok"'') = Some ''it's "ok"'' \<and>
   rewritesKeep (toDoubleQuoted (''it'' @ backslash # squote # ''s "ok"'')) \<and>
   singleQuotedValue ''a{b'' = Some ''a{b'' \<and>
   rewritesKeep (toDoubleQuoted ''a{b'') \<and>
   normalizeToJSON (''[1, '' @ squote # (''it'' @ backslash # squote # ''s "ok"'') @ squote # '', ]'') =
     ''[1, '' @ dquote # (''it's '' @ backslash # dquote # ''ok'' @ [backslash, dquote]) @ dquote # '' ]'' \<and>
   lexString ((''it's '' @ backslash # dquote # ''ok'' @ [backslash, dquote]) @ dquote # ''}'')
     = Some (''it's "ok"'', ''}'') \<and>
   parseJSON JSON_parse
     (Some (JStr (''{'' @ squote # ''a{b'' @ squote # '': '' @
        squote # (''it'' @ backslash # squote # ''s "ok"'') @ squote # ''}'')))
     None
     = Inr (JObj [(''a{b'', JStr ''it's "ok"'')]) \<and>
   rewritesKeep (toDoubleQuoted ''b c'')\<close>
proof -
  have v: \<open>singleQuotedValue (''it'' @ backslash # squote # ''s "ok"'') = Some ''it's "ok"''\<close>
    by code_simp
  have t: \<open>toDoubleQuoted (''it'' @ backslash # squote # ''s "ok"'') =
      ''it's '' @ backslash # dquote # ''ok'' @ [backslash, dquote]\<close>
    by code_simp
  have keep: \<open>rewritesKeep (toDoubleQuoted (''it'' @ backslash # squote # ''s "ok"''))\<close>
    by code_simp
  have k: "singleQuotedValue ''a{b'' = Some ''a{b''"
    by code_simp
  have kkeep: "rewritesKeep (toDoubleQuoted ''a{b'')"
    by code_simp
  have plain: "squote \<notin> set ''[1, ''" "dquote \<notin> set ''[1, ''" "backslash \<notin> set ''[1, ''"
    by (simp_all add: squote_def dquote_def backslash_def)
  have b: "CHR ''{'' \<notin> set ''b c'' \<and> CHR '','' \<notin> set ''b c''"
    by simp
  have n: "normalizeToJSON ''[1, '' = ''[1, ''" "normalizeToJSON '', ]'' = '' ]''"
    by code_simp+
  from single_quoted_to_double_quoted [OF v keep plain k kkeep, of "'', ]''" "''}''" "''b c''"]
    v keep k kkeep b
  show ?thesis unfolding t n by blast
qed

text \<open>
  C7 as stated fails on a single-quoted literal with an escape that JSON does not have:
  line 53 copies the pair \<^verbatim>\<open>\x\<close> as it is, and the result is no JSON text. It fails
  on a literal with a control character, here a TAB, which the scan copies and JSON does
  not allow in a string. And it fails where a rewrite has a match inside the converted
  run: the comma of \<^verbatim>\<open>'b,}'\<close> is removed.
\<close>

theorem single_quoted_counterexample:
  \<open>normalizeToJSON (''{'a': '' @ squote # backslash # ''x41'' @ squote # ''}'')
     = ''{"a": "'' @ backslash # ''x41"}'' \<and>
   JSON_parse (''{"a": "'' @ backslash # ''x41"}'') = Inl SyntaxError \<and>
   parseJSON JSON_parse (Some (JStr (''{'a': 'x'' @ CHR 0x09 # ''y'}''))) None = Inl SyntaxError \<and>
   singleQuotedValue ''b,}'' = Some ''b,}'' \<and>
   parseJSON JSON_parse (Some (JStr ''{'a': 'b,}'}'')) None = Inr (JObj [(''a'', JStr ''b}'')])\<close>
proof -
  have a: \<open>normalizeToJSON (''{'a': '' @ squote # backslash # ''x41'' @ squote # ''}'')
     = ''{"a": "'' @ backslash # ''x41"}''\<close>
    by code_simp
  have b: \<open>JSON_parse (''{"a": "'' @ backslash # ''x41"}'') = Inl SyntaxError\<close>
    by code_simp
  have c: \<open>parseJSON JSON_parse (Some (JStr (''{'a': 'x'' @ CHR 0x09 # ''y'}''))) None
      = Inl SyntaxError\<close>
    by code_simp
  have d: "singleQuotedValue ''b,}'' = Some ''b,}''"
    by code_simp
  have e: \<open>parseJSON JSON_parse (Some (JStr ''{'a': 'b,}'}'')) None
      = Inr (JObj [(''a'', JStr ''b}'')])\<close>
    by code_simp
  from a b c d e show ?thesis by blast
qed

subsection \<open>Valid JSON and the scan\<close>

text \<open>
  On a text the strict decoder accepts, the scan changes nothing: outside strings such a
  text has no quote and no backslash, and a string is a double-quoted run, which the
  scan copies. Trimming keeps the tokens of such a text, and the Classifier accepts the
  trimmed text. So extraction differs from decoding only through the two rewrites.
\<close>

lemma lexString_scanDouble:
  "lexString cs = Some (str, rest) \<Longrightarrow>
     \<exists>body. cs = body @ rest \<and> scanDouble cs = body @ scanNormal rest"
proof (induction "length cs" arbitrary: cs str rest rule: less_induct)
  case less
  note q = quote_chars
  show ?case
  proof (cases cs)
    case Nil
    with less.prems show ?thesis by simp
  next
    case (Cons c cs')
    show ?thesis
    proof (cases "c = dquote")
      case True
      with less.prems Cons have "rest = cs'" by simp
      with True Cons have "cs = [dquote] @ rest \<and> scanDouble cs = [dquote] @ scanNormal rest"
        by (simp add: q)
      then show ?thesis by blast
    next
      case nq: False
      show ?thesis
      proof (cases "c = backslash")
        case True
        with less.prems Cons nq obtain e cs2 where cs': "cs' = e # cs2"
          by (cases cs') auto
        show ?thesis
        proof (cases "e = CHR ''u''")
          case True
          with less.prems Cons nq \<open>c = backslash\<close> cs'
          obtain h1 h2 h3 h4 cs3 str' where
            h: "cs2 = h1 # h2 # h3 # h4 # cs3"
              "isHexDigit h1" "isHexDigit h2" "isHexDigit h3" "isHexDigit h4"
              "lexString cs3 = Some (str', rest)"
            by (auto split: list.splits if_splits option.splits)
          from less.hyps [of cs3 str' rest] h Cons cs'
          obtain body where b: "cs3 = body @ rest" "scanDouble cs3 = body @ scanNormal rest"
            by auto
          have p: "h1 \<noteq> dquote" "h1 \<noteq> backslash" "h2 \<noteq> dquote" "h2 \<noteq> backslash"
            "h3 \<noteq> dquote" "h3 \<noteq> backslash" "h4 \<noteq> dquote" "h4 \<noteq> backslash"
            using h hexDigit_plain by blast+
          have "scanDouble cs = backslash # e # h1 # h2 # h3 # h4 # scanDouble cs3"
            using Cons cs' \<open>c = backslash\<close> h(1) p by simp
          with b Cons cs' \<open>c = backslash\<close> h(1)
          have "cs = (backslash # e # h1 # h2 # h3 # h4 # body) @ rest \<and>
              scanDouble cs = (backslash # e # h1 # h2 # h3 # h4 # body) @ scanNormal rest"
            by simp
          then show ?thesis by blast
        next
          case False
          with less.prems Cons nq \<open>c = backslash\<close> cs'
          obtain str' where l: "lexString cs2 = Some (str', rest)"
            by (auto split: option.splits)
          from less.hyps [of cs2 str' rest] l Cons cs'
          obtain body where b: "cs2 = body @ rest" "scanDouble cs2 = body @ scanNormal rest"
            by auto
          with Cons cs' \<open>c = backslash\<close>
          have "cs = (backslash # e # body) @ rest \<and>
              scanDouble cs = (backslash # e # body) @ scanNormal rest"
            by simp
          then show ?thesis by blast
        qed
      next
        case False
        with less.prems Cons nq obtain str' where l: "lexString cs' = Some (str', rest)"
          by (auto split: option.splits if_splits)
        from less.hyps [of cs' str' rest] l Cons
        obtain body where b: "cs' = body @ rest" "scanDouble cs' = body @ scanNormal rest"
          by auto
        with Cons nq False
        have "cs = (c # body) @ rest \<and> scanDouble cs = (c # body) @ scanNormal rest"
          by simp
        then show ?thesis by blast
      qed
    qed
  qed
qed

lemma jsonSpace_space: "isJsonSpace c \<Longrightarrow> isSpace c"
  by (auto simp: isJsonSpace_def isSpace_def)

lemma numberChar_plain:
  "isNumberChar c \<Longrightarrow> c \<noteq> squote \<and> c \<noteq> dquote \<and> c \<noteq> backslash"
  by (auto simp: isNumberChar_def isDigit_def squote_def dquote_def backslash_def)

lemma punct_plain:
  "c \<in> set ''{}[],:'' \<Longrightarrow> c \<noteq> squote \<and> c \<noteq> dquote \<and> c \<noteq> backslash"
  by (auto simp: squote_def dquote_def backslash_def)

lemma literal_plain:
  "squote \<notin> set ''true''" "dquote \<notin> set ''true''" "backslash \<notin> set ''true''"
  "squote \<notin> set ''false''" "dquote \<notin> set ''false''" "backslash \<notin> set ''false''"
  "squote \<notin> set ''null''" "dquote \<notin> set ''null''" "backslash \<notin> set ''null''"
  by (simp_all add: squote_def dquote_def backslash_def)

lemma prefix_drop: "prefix p s \<Longrightarrow> s = p @ drop (length p) s"
  by (auto simp: prefix_def)

lemma tokenize_literal_cases:
  assumes "\<not> isJsonSpace c" "c \<notin> set ''{}[],:''" "c \<noteq> dquote"
    "\<not> (c = CHR ''-'' \<or> isDigit c)"
  shows "tokenize (c # cs) =
     (if prefix ''true'' (c # cs) then map_option (Cons TTrue) (tokenize (drop 3 cs))
      else if prefix ''false'' (c # cs) then map_option (Cons TFalse) (tokenize (drop 4 cs))
      else if prefix ''null'' (c # cs) then map_option (Cons TNull) (tokenize (drop 3 cs))
      else None)"
  using assms by (subst tokenize.simps) (simp only: if_False)

lemma literal_token:
  assumes "\<not> isJsonSpace c" "c \<notin> set ''{}[],:''" "c \<noteq> dquote"
    "\<not> (c = CHR ''-'' \<or> isDigit c)"
    and "tokenize (c # cs) = Some ts"
  shows "(prefix ''true'' (c # cs) \<and> (\<exists>ts'. tokenize (drop 3 cs) = Some ts' \<and> ts = TTrue # ts')) \<or>
         (prefix ''false'' (c # cs) \<and> (\<exists>ts'. tokenize (drop 4 cs) = Some ts' \<and> ts = TFalse # ts')) \<or>
         (prefix ''null'' (c # cs) \<and> (\<exists>ts'. tokenize (drop 3 cs) = Some ts' \<and> ts = TNull # ts'))"
proof -
  note eq = tokenize_literal_cases [OF assms(1-4), of cs]
  show ?thesis
  proof (cases "prefix ''true'' (c # cs)")
    case True
    with eq assms(5) have "map_option (Cons TTrue) (tokenize (drop 3 cs)) = Some ts"
      by (simp only: if_True)
    then have "\<exists>ts'. tokenize (drop 3 cs) = Some ts' \<and> ts = TTrue # ts'"
      by (cases "tokenize (drop 3 cs)") auto
    with True show ?thesis by blast
  next
    case nt: False
    show ?thesis
    proof (cases "prefix ''false'' (c # cs)")
      case True
      with eq nt assms(5) have "map_option (Cons TFalse) (tokenize (drop 4 cs)) = Some ts"
        by (simp only: if_True if_False)
      then have "\<exists>ts'. tokenize (drop 4 cs) = Some ts' \<and> ts = TFalse # ts'"
        by (cases "tokenize (drop 4 cs)") auto
      with True show ?thesis by blast
    next
      case nf: False
      show ?thesis
      proof (cases "prefix ''null'' (c # cs)")
        case True
        with eq nt nf assms(5) have "map_option (Cons TNull) (tokenize (drop 3 cs)) = Some ts"
          by (simp only: if_True if_False)
        then have "\<exists>ts'. tokenize (drop 3 cs) = Some ts' \<and> ts = TNull # ts'"
          by (cases "tokenize (drop 3 cs)") auto
        with True show ?thesis by blast
      next
        case False
        with eq nt nf assms(5) have "None = Some ts"
          by (simp only: if_False)
        then show ?thesis by simp
      qed
    qed
  qed
qed

lemma literal_prefix:
  assumes "\<not> isJsonSpace c" "c \<notin> set ''{}[],:''" "c \<noteq> dquote"
    "\<not> (c = CHR ''-'' \<or> isDigit c)"
    and "tokenize (c # cs) = Some ts"
  shows "\<exists>p ts'. (p = ''true'' \<or> p = ''false'' \<or> p = ''null'') \<and> prefix p (c # cs) \<and>
           tokenize (drop (length p) (c # cs)) = Some ts'"
proof -
  have d: "drop (length ''true'') (c # cs) = drop 3 cs"
    "drop (length ''false'') (c # cs) = drop 4 cs"
    "drop (length ''null'') (c # cs) = drop 3 cs"
    by (simp_all add: eval_nat_numeral)
  from literal_token [OF assms] consider
    (t) ts' where "prefix ''true'' (c # cs)" "tokenize (drop 3 cs) = Some ts'"
    | (f) ts' where "prefix ''false'' (c # cs)" "tokenize (drop 4 cs) = Some ts'"
    | (n) ts' where "prefix ''null'' (c # cs)" "tokenize (drop 3 cs) = Some ts'"
    by blast
  then show ?thesis
  proof cases
    case t
    then have "(''true'' = ''true'' \<or> ''true'' = ''false'' \<or> ''true'' = ''null'') \<and>
        prefix ''true'' (c # cs) \<and> tokenize (drop (length ''true'') (c # cs)) = Some ts'"
      unfolding d by blast
    then show ?thesis
      by - (rule exI [of _ "''true''"], rule exI [of _ ts'], assumption)
  next
    case f
    then have "(''false'' = ''true'' \<or> ''false'' = ''false'' \<or> ''false'' = ''null'') \<and>
        prefix ''false'' (c # cs) \<and> tokenize (drop (length ''false'') (c # cs)) = Some ts'"
      unfolding d by blast
    then show ?thesis
      by - (rule exI [of _ "''false''"], rule exI [of _ ts'], assumption)
  next
    case n
    then have "(''null'' = ''true'' \<or> ''null'' = ''false'' \<or> ''null'' = ''null'') \<and>
        prefix ''null'' (c # cs) \<and> tokenize (drop (length ''null'') (c # cs)) = Some ts'"
      unfolding d by blast
    then show ?thesis
      by - (rule exI [of _ "''null''"], rule exI [of _ ts'], assumption)
  qed
qed

lemma tokenize_scanNormal:
  "tokenize t = Some ts \<Longrightarrow> scanNormal t = t"
proof (induction "length t" arbitrary: t ts rule: less_induct)
  case less
  show ?case
  proof (cases t)
    case Nil
    then show ?thesis by simp
  next
    case (Cons c cs)
    consider (ws) "isJsonSpace c"
      | (punct) "\<not> isJsonSpace c" "c \<in> set ''{}[],:''"
      | (str) "\<not> isJsonSpace c" "c \<notin> set ''{}[],:''" "c = dquote"
      | (num) "\<not> isJsonSpace c" "c \<notin> set ''{}[],:''" "c \<noteq> dquote" "c = CHR ''-'' \<or> isDigit c"
      | (lit) "\<not> isJsonSpace c" "c \<notin> set ''{}[],:''" "c \<noteq> dquote"
          "\<not> (c = CHR ''-'' \<or> isDigit c)"
      by blast
    then show ?thesis
    proof cases
      case ws
      with less.prems Cons have "tokenize cs = Some ts" by simp
      then have "scanNormal cs = cs" using less.hyps [of cs ts] Cons by simp
      moreover from ws have "c \<noteq> squote" "c \<noteq> dquote"
        using jsonSpace_space space_plain by blast+
      ultimately show ?thesis using Cons by simp
    next
      case punct
      with less.prems Cons obtain ts' where "tokenize cs = Some ts'"
        by (auto simp del: set_simps)
      then have "scanNormal cs = cs" using less.hyps [of cs ts'] Cons by simp
      moreover from punct have "c \<noteq> squote" "c \<noteq> dquote"
        using punct_plain by blast+
      ultimately show ?thesis using Cons by simp
    next
      case str
      with less.prems Cons obtain s rest ts' where
        l: "lexString cs = Some (s, rest)" and t': "tokenize rest = Some ts'"
        by (auto split: option.splits simp del: set_simps)
      from lexString_scanDouble [OF l] obtain body where
        b: "cs = body @ rest" "scanDouble cs = body @ scanNormal rest" by blast
      have "length rest < length t" using b Cons by simp
      then have "scanNormal rest = rest" using less.hyps [of rest ts'] t' by simp
      with b str Cons show ?thesis by (simp add: quote_chars)
    next
      case num
      let ?n = "c # takeWhile isNumberChar cs"
      from num less.prems Cons obtain ts' where
        t': "tokenize (dropWhile isNumberChar cs) = Some ts'"
        by (auto simp: Let_def split: if_splits simp del: set_simps)
      have "length (dropWhile isNumberChar cs) < length t"
        using Cons by (simp add: length_dropWhile_le le_imp_less_Suc)
      then have r: "scanNormal (dropWhile isNumberChar cs) = dropWhile isNumberChar cs"
        using less.hyps [of "dropWhile isNumberChar cs" ts'] t' by simp
      have "isNumberChar c" using num by (auto simp: isNumberChar_def)
      then have "\<forall>x \<in> set ?n. isNumberChar x"
        by (auto dest: set_takeWhileD)
      then have p: "squote \<notin> set ?n" "dquote \<notin> set ?n" "backslash \<notin> set ?n"
        using numberChar_plain by blast+
      have "t = ?n @ dropWhile isNumberChar cs" using Cons by simp
      then have "scanNormal t = scanNormal (?n @ dropWhile isNumberChar cs)" by simp
      also have "\<dots> = ?n @ scanNormal (dropWhile isNumberChar cs)"
        using scan_plain(1) [OF p] by blast
      finally show ?thesis using r Cons by simp
    next
      case lit
      from literal_prefix [OF lit] less.prems Cons obtain p ts' where
        p: "p = ''true'' \<or> p = ''false'' \<or> p = ''null''" "prefix p t"
          "tokenize (drop (length p) t) = Some ts'"
        by blast
      from p(2) have tp: "t = p @ drop (length p) t" by (rule prefix_drop)
      from p(1) have "0 < length p" by auto
      then have "length (drop (length p) t) < length t"
        using Cons by simp
      then have r: "scanNormal (drop (length p) t) = drop (length p) t"
        using less.hyps [of "drop (length p) t" ts'] p(3) by simp
      from p(1) have pl: "squote \<notin> set p" "dquote \<notin> set p" "backslash \<notin> set p"
        using literal_plain by auto
      have "scanNormal (p @ drop (length p) t) = p @ scanNormal (drop (length p) t)"
        using scan_plain(1) [OF pl] by blast
      with r tp show ?thesis by simp
    qed
  qed
qed

lemma space_token_facts:
  assumes "isSpace c"
  shows "c \<noteq> dquote" "c \<noteq> backslash" "c \<notin> set ''{}[],:''" "\<not> isDigit c" "c \<noteq> CHR ''-''"
    "\<not> isHexDigit c" "unescape c = None" "c \<noteq> CHR ''u''" "\<not> isNumberChar c"
    "c \<notin> set ''true''" "c \<notin> set ''false''" "c \<notin> set ''null''"
  using assms
  by (auto simp: isSpace_def dquote_def backslash_def isDigit_def isHexDigit_def unescape_def
      isNumberChar_def)

lemma not_prefix_literal:
  assumes "c \<notin> set p" "p \<noteq> []"
  shows "\<not> prefix p (c # cs)"
  using assms by (cases p) auto

lemma tokenize_other_space:
  assumes "isSpace c" "\<not> isJsonSpace c"
  shows "tokenize (c # cs) = None"
proof -
  note f = space_token_facts [OF assms(1)]
  have "\<not> (c = CHR ''-'' \<or> isDigit c)" using f by simp
  note eq = tokenize_literal_cases [OF assms(2) f(3) f(1) this, of cs]
  have np: "\<not> prefix ''true'' (c # cs)" "\<not> prefix ''false'' (c # cs)"
    "\<not> prefix ''null'' (c # cs)"
    using f(10-12) by auto
  show ?thesis unfolding eq using np by (simp only: if_False)
qed

lemma tokenize_trimStart:
  "tokenize t = Some ts \<Longrightarrow> tokenize (trimStart t) = Some ts"
proof (induction t)
  case Nil
  then show ?case by (simp add: trimStart_def)
next
  case (Cons c cs)
  show ?case
  proof (cases "isSpace c")
    case True
    have j: "isJsonSpace c"
    proof (rule ccontr)
      assume "\<not> isJsonSpace c"
      with True have "tokenize (c # cs) = None" by (rule tokenize_other_space)
      with Cons.prems show False by (simp del: tokenize.simps)
    qed
    with Cons.prems have "tokenize cs = Some ts" by simp
    then have "tokenize (trimStart cs) = Some ts" by (rule Cons.IH)
    with True show ?thesis by (simp add: trimStart_def)
  next
    case False
    with Cons.prems show ?thesis by (simp add: trimStart_def)
  qed
qed

lemma lexString_snoc:
  "lexString (xs @ [c]) = Some (str, rest) \<Longrightarrow> isSpace c \<Longrightarrow>
     \<exists>r'. rest = r' @ [c] \<and> lexString xs = Some (str, r')"
proof (induction "length xs" arbitrary: xs str rest rule: less_induct)
  case less
  note f = space_token_facts [OF less.prems(2)]
  show ?case
  proof (cases xs)
    case Nil
    with less.prems f show ?thesis by (auto split: if_splits)
  next
    case (Cons x xs')
    show ?thesis
    proof (cases "x = dquote")
      case True
      with less.prems Cons show ?thesis by simp
    next
      case nq: False
      show ?thesis
      proof (cases "x = backslash")
        case True
        show ?thesis
        proof (cases xs')
          case Nil
          with less.prems Cons True nq f show ?thesis by simp
        next
          case (Cons e xs2)
          note xs' = this
          show ?thesis
          proof (cases "e = CHR ''u''")
            case True
            from less.prems(1) \<open>xs = x # xs'\<close> \<open>x = backslash\<close> nq xs' True
            obtain h1 h2 h3 h4 cs3 str' where
              h: "xs2 @ [c] = h1 # h2 # h3 # h4 # cs3"
                "isHexDigit h1" "isHexDigit h2" "isHexDigit h3" "isHexDigit h4"
                "hexValue h1 = 0" "hexValue h2 = 0"
                "lexString cs3 = Some (str', rest)"
                "str = char_of (16 * hexValue h3 + hexValue h4) # str'"
              by (auto split: list.splits if_splits option.splits)
            from h(1-5) f(6) obtain xs3 where x3: "xs2 = h1 # h2 # h3 # h4 # xs3" "cs3 = xs3 @ [c]"
              by (auto simp: append_eq_Cons_conv)
            from less.hyps [of xs3 str' rest] h(8) x3 \<open>xs = x # xs'\<close> xs' less.prems(2)
            obtain r' where "rest = r' @ [c]" "lexString xs3 = Some (str', r')"
              by auto
            with h x3 \<open>xs = x # xs'\<close> xs' \<open>x = backslash\<close> nq True show ?thesis
              by simp
          next
            case False
            from less.prems(1) \<open>xs = x # xs'\<close> \<open>x = backslash\<close> nq xs' False
            obtain ch str' where
              u: "unescape e = Some ch" "lexString (xs2 @ [c]) = Some (str', rest)" "str = ch # str'"
              by (auto split: option.splits)
            from less.hyps [of xs2 str' rest] u \<open>xs = x # xs'\<close> xs' less.prems(2)
            obtain r' where "rest = r' @ [c]" "lexString xs2 = Some (str', r')"
              by auto
            with u \<open>xs = x # xs'\<close> xs' \<open>x = backslash\<close> nq False show ?thesis
              by simp
          qed
        qed
      next
        case False
        from less.prems(1) Cons nq False
        obtain str' where
          u: "\<not> (of_char x :: nat) < 32" "lexString (xs' @ [c]) = Some (str', rest)" "str = x # str'"
          by (auto split: option.splits if_splits)
        from less.hyps [of xs' str' rest] u Cons less.prems(2)
        obtain r' where "rest = r' @ [c]" "lexString xs' = Some (str', r')"
          by auto
        with u Cons nq False show ?thesis by simp
      qed
    qed
  qed
qed

lemma tokenize_true:
  assumes "prefix ''true'' (c # cs)"
  shows "tokenize (c # cs) = map_option (Cons TTrue) (tokenize (drop 3 cs))"
proof -
  from assms have c: "c = CHR ''t''" by simp
  have f: "\<not> isJsonSpace c" "c \<notin> set ''{}[],:''" "c \<noteq> dquote"
    "\<not> (c = CHR ''-'' \<or> isDigit c)"
    unfolding c by (simp_all add: isJsonSpace_def dquote_def isDigit_def)
  from tokenize_literal_cases [OF f, of cs] assms show ?thesis
    by (simp only: if_True)
qed

lemma tokenize_false:
  assumes "prefix ''false'' (c # cs)"
  shows "tokenize (c # cs) = map_option (Cons TFalse) (tokenize (drop 4 cs))"
proof -
  from assms have c: "c = CHR ''f''" by simp
  have f: "\<not> isJsonSpace c" "c \<notin> set ''{}[],:''" "c \<noteq> dquote"
    "\<not> (c = CHR ''-'' \<or> isDigit c)"
    unfolding c by (simp_all add: isJsonSpace_def dquote_def isDigit_def)
  have np: "\<not> prefix ''true'' (c # cs)" unfolding c by simp
  from tokenize_literal_cases [OF f, of cs] assms np show ?thesis
    by (simp only: if_True if_False)
qed

lemma tokenize_null:
  assumes "prefix ''null'' (c # cs)"
  shows "tokenize (c # cs) = map_option (Cons TNull) (tokenize (drop 3 cs))"
proof -
  from assms have c: "c = CHR ''n''" by simp
  have f: "\<not> isJsonSpace c" "c \<notin> set ''{}[],:''" "c \<noteq> dquote"
    "\<not> (c = CHR ''-'' \<or> isDigit c)"
    unfolding c by (simp_all add: isJsonSpace_def dquote_def isDigit_def)
  have np: "\<not> prefix ''true'' (c # cs)" "\<not> prefix ''false'' (c # cs)"
    unfolding c by simp_all
  from tokenize_literal_cases [OF f, of cs] assms np show ?thesis
    by (simp only: if_True if_False)
qed

lemma takeWhile_snoc_not: "\<not> P c \<Longrightarrow> takeWhile P (xs @ [c]) = takeWhile P xs"
  by (induction xs) simp_all

lemma dropWhile_snoc_not: "\<not> P c \<Longrightarrow> dropWhile P (xs @ [c]) = dropWhile P xs @ [c]"
  by (induction xs) simp_all

lemma prefix_snoc_literal:
  assumes "prefix p ((x # xs) @ [c])" and "c \<notin> set p" and "Suc n = length p"
  shows "prefix p (x # xs)" and "drop n (xs @ [c]) = drop n xs @ [c]"
proof -
  from assms(1) have "p = (x # xs) @ [c] \<or> prefix p (x # xs)"
    by (simp only: prefix_snoc)
  with assms(2) show p: "prefix p (x # xs)" by auto
  then have "length p \<le> length (x # xs)" by (rule prefix_length_le)
  with assms(3) have "n \<le> length xs" by simp
  then show "drop n (xs @ [c]) = drop n xs @ [c]" by simp
qed

lemma tokenize_snoc:
  "tokenize (t @ [c]) = Some ts \<Longrightarrow> isSpace c \<Longrightarrow> tokenize t = Some ts"
proof (induction "length t" arbitrary: t ts rule: less_induct)
  case less
  note f = space_token_facts [OF less.prems(2)]
  show ?case
  proof (cases t)
    case Nil
    have "isJsonSpace c"
    proof (rule ccontr)
      assume "\<not> isJsonSpace c"
      with less.prems(2) have "tokenize (c # []) = None" by (rule tokenize_other_space)
      with less.prems(1) Nil show False by (simp del: tokenize.simps)
    qed
    with less.prems(1) Nil show ?thesis by simp
  next
    case (Cons x xs)
    consider (ws) "isJsonSpace x"
      | (punct) "\<not> isJsonSpace x" "x \<in> set ''{}[],:''"
      | (str) "\<not> isJsonSpace x" "x \<notin> set ''{}[],:''" "x = dquote"
      | (num) "\<not> isJsonSpace x" "x \<notin> set ''{}[],:''" "x \<noteq> dquote" "x = CHR ''-'' \<or> isDigit x"
      | (lit) "\<not> isJsonSpace x" "x \<notin> set ''{}[],:''" "x \<noteq> dquote"
          "\<not> (x = CHR ''-'' \<or> isDigit x)"
      by blast
    then show ?thesis
    proof cases
      case ws
      with less.prems(1) Cons have "tokenize (xs @ [c]) = Some ts" by simp
      then have "tokenize xs = Some ts"
        using less.hyps [of xs ts] Cons less.prems(2) by simp
      with ws Cons show ?thesis by simp
    next
      case punct
      with less.prems(1) Cons obtain ts' where
        t': "tokenize (xs @ [c]) = Some ts'" "ts = TPunct x # ts'"
        by (auto simp del: set_simps)
      then have "tokenize xs = Some ts'"
        using less.hyps [of xs ts'] Cons less.prems(2) by simp
      with punct Cons t' show ?thesis by (simp del: set_simps)
    next
      case str
      with less.prems(1) Cons obtain s rest ts' where
        l: "lexString (xs @ [c]) = Some (s, rest)" and
        t': "tokenize rest = Some ts'" "ts = TString s # ts'"
        by (auto split: option.splits simp del: set_simps)
      from lexString_snoc [OF l less.prems(2)] obtain r' where
        r: "rest = r' @ [c]" "lexString xs = Some (s, r')" by blast
      from lexString_shorter [OF r(2)] have "length r' < length t" using Cons by simp
      then have "tokenize r' = Some ts'"
        using less.hyps [of r' ts'] t'(1) r(1) less.prems(2) by simp
      with str Cons r t' show ?thesis by (simp del: set_simps)
    next
      case num
      have tw: "takeWhile isNumberChar (xs @ [c]) = takeWhile isNumberChar xs"
        and dw: "dropWhile isNumberChar (xs @ [c]) = dropWhile isNumberChar xs @ [c]"
        using f(9) by (simp_all add: takeWhile_snoc_not dropWhile_snoc_not)
      from num less.prems(1) Cons obtain ts' where
        v: "validNumber (x # takeWhile isNumberChar xs)" and
        t': "tokenize (dropWhile isNumberChar xs @ [c]) = Some ts'"
          "ts = TNumber (x # takeWhile isNumberChar xs) # ts'"
        by (auto simp: Let_def tw dw split: if_splits simp del: set_simps)
      have "length (dropWhile isNumberChar xs) < length t"
        using Cons by (simp add: length_dropWhile_le le_imp_less_Suc)
      then have "tokenize (dropWhile isNumberChar xs) = Some ts'"
        using less.hyps [of "dropWhile isNumberChar xs" ts'] t'(1) less.prems(2) by simp
      with num Cons v t' show ?thesis by (simp add: Let_def del: set_simps)
    next
      case lit
      from less.prems(1) have tk: "tokenize (x # (xs @ [c])) = Some ts"
        unfolding Cons by (simp only: append_Cons)
      from literal_token [OF lit tk] consider
        (t) ts' where "prefix ''true'' (x # (xs @ [c]))" "tokenize (drop 3 (xs @ [c])) = Some ts'"
          "ts = TTrue # ts'"
        | (f) ts' where "prefix ''false'' (x # (xs @ [c]))" "tokenize (drop 4 (xs @ [c])) = Some ts'"
          "ts = TFalse # ts'"
        | (n) ts' where "prefix ''null'' (x # (xs @ [c]))" "tokenize (drop 3 (xs @ [c])) = Some ts'"
          "ts = TNull # ts'"
        by blast
      then show ?thesis
      proof cases
        case t
        from t(1) have "prefix ''true'' ((x # xs) @ [c])" by simp
        then have p: "prefix ''true'' (x # xs)" and d: "drop 3 (xs @ [c]) = drop 3 xs @ [c]"
          using \<open>c \<notin> set ''true''\<close> by (rule prefix_snoc_literal, simp)+
        have "length (drop 3 xs) < length t" using Cons by simp
        then have "tokenize (drop 3 xs) = Some ts'"
          using less.hyps [of "drop 3 xs" ts'] t(2) d less.prems(2) by simp
        with tokenize_true [OF p] t(3) Cons show ?thesis by (simp del: tokenize.simps)
      next
        case f
        from f(1) have "prefix ''false'' ((x # xs) @ [c])" by simp
        then have p: "prefix ''false'' (x # xs)" and d: "drop 4 (xs @ [c]) = drop 4 xs @ [c]"
          using \<open>c \<notin> set ''false''\<close> by (rule prefix_snoc_literal, simp)+
        have "length (drop 4 xs) < length t" using Cons by simp
        then have "tokenize (drop 4 xs) = Some ts'"
          using less.hyps [of "drop 4 xs" ts'] f(2) d less.prems(2) by simp
        with tokenize_false [OF p] f(3) Cons show ?thesis by (simp del: tokenize.simps)
      next
        case n
        from n(1) have "prefix ''null'' ((x # xs) @ [c])" by simp
        then have p: "prefix ''null'' (x # xs)" and d: "drop 3 (xs @ [c]) = drop 3 xs @ [c]"
          using \<open>c \<notin> set ''null''\<close> by (rule prefix_snoc_literal, simp)+
        have "length (drop 3 xs) < length t" using Cons by simp
        then have "tokenize (drop 3 xs) = Some ts'"
          using less.hyps [of "drop 3 xs" ts'] n(2) d less.prems(2) by simp
        with tokenize_null [OF p] n(3) Cons show ?thesis by (simp del: tokenize.simps)
      qed
    qed
  qed
qed

lemma tokenize_drop_spaces:
  "tokenize (u @ w) = Some ts \<Longrightarrow> \<forall>c \<in> set w. isSpace c \<Longrightarrow> tokenize u = Some ts"
proof (induction w rule: rev_induct)
  case Nil
  then show ?case by simp
next
  case (snoc c w)
  from snoc.prems have "tokenize ((u @ w) @ [c]) = Some ts" "isSpace c" by simp_all
  then have "tokenize (u @ w) = Some ts" by (rule tokenize_snoc)
  with snoc show ?case by simp
qed

lemma tokenize_trimEnd:
  assumes "tokenize t = Some ts"
  shows "tokenize (trimEnd t) = Some ts"
proof -
  have "rev (takeWhile isSpace (rev t) @ dropWhile isSpace (rev t)) = t"
    by (simp only: takeWhile_dropWhile_id rev_rev_ident)
  then have t: "trimEnd t @ rev (takeWhile isSpace (rev t)) = t"
    by (simp only: rev_append trimEnd_def)
  have "\<forall>c \<in> set (rev (takeWhile isSpace (rev t))). isSpace c"
    by (auto dest: set_takeWhileD)
  with assms t show ?thesis
    using tokenize_drop_spaces [of "trimEnd t" "rev (takeWhile isSpace (rev t))" ts] by simp
qed

lemma tokenize_trim: "tokenize t = Some ts \<Longrightarrow> tokenize (trim t) = Some ts"
  by (simp add: trim_def tokenize_trimStart tokenize_trimEnd)

lemma tokenize_no_tokens:
  "tokenize s = Some [] \<Longrightarrow> \<forall>c \<in> set s. isJsonSpace c"
proof (induction s)
  case Nil
  show ?case by simp
next
  case (Cons c cs)
  consider (ws) "isJsonSpace c"
    | (punct) "\<not> isJsonSpace c" "c \<in> set ''{}[],:''"
    | (str) "\<not> isJsonSpace c" "c \<notin> set ''{}[],:''" "c = dquote"
    | (num) "\<not> isJsonSpace c" "c \<notin> set ''{}[],:''" "c \<noteq> dquote" "c = CHR ''-'' \<or> isDigit c"
    | (lit) "\<not> isJsonSpace c" "c \<notin> set ''{}[],:''" "c \<noteq> dquote"
        "\<not> (c = CHR ''-'' \<or> isDigit c)"
    by blast
  then show ?case
  proof cases
    case ws
    with Cons.prems have "tokenize cs = Some []" by simp
    with Cons.IH ws show ?thesis by simp
  next
    case punct
    with Cons.prems show ?thesis by (auto simp del: set_simps)
  next
    case str
    with Cons.prems show ?thesis by (auto split: option.splits simp del: set_simps)
  next
    case num
    with Cons.prems show ?thesis by (auto simp: Let_def split: if_splits simp del: set_simps)
  next
    case lit
    from literal_token [OF lit Cons.prems] show ?thesis by blast
  qed
qed

lemma takeWhile_Cons_hd: "takeWhile P xs = d # r \<Longrightarrow> \<exists>xs'. xs = d # xs'"
  by (cases xs) (auto split: if_splits)

lemma minus_number_digit:
  assumes "validNumber (CHR ''-'' # takeWhile isNumberChar cs)"
  shows "\<exists>d cs'. cs = d # cs' \<and> isDigit d"
proof -
  from assms obtain d r where tw: "takeWhile isNumberChar cs = d # r"
    and d: "d = CHR ''0'' \<or> isDigit d"
    by (auto simp: validNumber_def numberInt_def split: list.splits option.splits if_splits)
  have "isDigit CHR ''0''" by (simp add: isDigit_def)
  with d have "isDigit d" by auto
  with takeWhile_Cons_hd [OF tw] show ?thesis by blast
qed

lemma trimStart_head: "trimStart (c # cs) = c # cs \<Longrightarrow> \<not> isSpace c"
proof
  assume t: "trimStart (c # cs) = c # cs" and "isSpace c"
  then have "dropWhile isSpace cs = c # cs" by (simp add: trimStart_def)
  then have "length (c # cs) \<le> length cs"
    using length_dropWhile_le [of isSpace cs] by simp
  then show False by simp
qed

lemma trimEnd_last: "trimEnd u = u \<Longrightarrow> u \<noteq> [] \<Longrightarrow> \<not> isSpace (last u)"
proof -
  assume "trimEnd u = u" "u \<noteq> []"
  then have "rev (dropWhile isSpace (rev u)) = rev (rev u)" by (simp add: trimEnd_def)
  then have "dropWhile isSpace (rev u) = rev u" by (simp only: rev_is_rev_conv)
  then have "rev u = [] \<or> \<not> isSpace (hd (rev u))"
    by (simp add: dropWhile_eq_self_iff)
  with \<open>u \<noteq> []\<close> show ?thesis by (simp add: hd_rev)
qed

lemma literal_whole:
  assumes p: "prefix p u" and tk: "tokenize (drop (length p) u) = Some []"
    and te: "trimEnd u = u" and ne: "p \<noteq> []"
  shows "u = p"
proof -
  from p have u: "u = p @ drop (length p) u" by (rule prefix_drop)
  have "drop (length p) u = []"
  proof (rule ccontr)
    assume n: "drop (length p) u \<noteq> []"
    with u have lu: "last u = last (drop (length p) u)"
      by (metis last_appendR)
    have "last (drop (length p) u) \<in> set (drop (length p) u)"
      using n by (rule last_in_set)
    with tokenize_no_tokens [OF tk] have "isJsonSpace (last (drop (length p) u))"
      by blast
    then have "isJsonSpace (last u)" by (simp only: lu)
    then have "isSpace (last u)" by (rule jsonSpace_space)
    moreover from u ne have "u \<noteq> []" by auto
    ultimately show False using trimEnd_last [OF te] by simp
  qed
  with u show ?thesis by simp
qed

lemma valid_json_looks_like_json:
  assumes tk: "tokenize u = Some ts" and pv: "parseValue [] ts = Inr v"
    and ts: "trimStart u = u" and te: "trimEnd u = u"
  shows "looksLikeJSON u"
proof (cases u)
  case Nil
  with tk pv show ?thesis by simp
next
  case (Cons c cs)
  from ts Cons have nsp: "\<not> isSpace c" using trimStart_head by simp
  then have nj: "\<not> isJsonSpace c" using jsonSpace_space by blast
  consider (punct) "c \<in> set ''{}[],:''"
    | (str) "c \<notin> set ''{}[],:''" "c = dquote"
    | (num) "c \<notin> set ''{}[],:''" "c \<noteq> dquote" "c = CHR ''-'' \<or> isDigit c"
    | (lit) "c \<notin> set ''{}[],:''" "c \<noteq> dquote" "\<not> (c = CHR ''-'' \<or> isDigit c)"
    by blast
  then show ?thesis
  proof cases
    case punct
    with tk Cons nj obtain ts' where "ts = TPunct c # ts'"
      by (auto simp del: set_simps)
    with pv have "c = CHR ''['' \<or> c = CHR ''{''"
      by (auto split: if_splits)
    with Cons ts show ?thesis
      by (auto simp: looksLikeJSON_def startsWith_def)
  next
    case str
    with Cons ts show ?thesis
      by (simp add: looksLikeJSON_def startsWith_def)
  next
    case num
    have "testMinusDigit (c # cs)"
    proof (cases "c = CHR ''-''")
      case True
      from num nj tk Cons True have "validNumber (CHR ''-'' # takeWhile isNumberChar cs)"
        by (auto simp: Let_def split: if_splits simp del: set_simps)
      from minus_number_digit [OF this] True show ?thesis by auto
    next
      case False
      with num show ?thesis by simp
    qed
    with Cons ts show ?thesis
      by (simp add: looksLikeJSON_def)
  next
    case lit
    from tk Cons have tk': "tokenize (c # cs) = Some ts" by simp
    have d: "drop (length ''true'') (c # cs) = drop 3 cs"
      "drop (length ''false'') (c # cs) = drop 4 cs"
      "drop (length ''null'') (c # cs) = drop 3 cs"
      by (simp_all add: eval_nat_numeral)
    have e: "ts' = []" if "ts = k # ts'" "k = TTrue \<or> k = TFalse \<or> k = TNull" for k ts'
      using pv that by (auto split: if_splits)
    from literal_token [OF nj lit tk'] consider
      (t) "prefix ''true'' (c # cs)" "tokenize (drop 3 cs) = Some []"
      | (f) "prefix ''false'' (c # cs)" "tokenize (drop 4 cs) = Some []"
      | (n) "prefix ''null'' (c # cs)" "tokenize (drop 3 cs) = Some []"
      using e by blast
    then have "u = ''true'' \<or> u = ''false'' \<or> u = ''null''"
    proof cases
      case t
      then have "u = ''true''"
        using literal_whole [of "''true''" u] te d(1) Cons by simp
      then show ?thesis by simp
    next
      case f
      then have "u = ''false''"
        using literal_whole [of "''false''" u] te d(2) Cons by simp
      then show ?thesis by simp
    next
      case n
      then have "u = ''null''"
        using literal_whole [of "''null''" u] te d(3) Cons by simp
      then show ?thesis by simp
    qed
    with ts show ?thesis
      by (auto simp: looksLikeJSON_def)
  qed
qed

lemma trim_trimmed: "trimStart (trim s) = trim s" "trimEnd (trim s) = trim s"
  by (simp_all add: trim_def trimStart_trimEnd trimStart_idem trimEnd_idem)

lemma valid_json_scan_unchanged:
  assumes "JSON_parse t = Inr v"
  shows "scanNormal (trim t) = trim t"
proof -
  from assms obtain ts where "tokenize t = Some ts"
    by (auto simp: JSON_parse_def split: option.splits)
  then have "tokenize (trim t) = Some ts" by (rule tokenize_trim)
  then show ?thesis by (rule tokenize_scanNormal)
qed

lemma valid_json_without_rewrite_matches:
  assumes v: "JSON_parse t = Inr v"
    and r: "removeTrailingCommas (quoteKeys (trim t)) = trim t"
  shows "parseJSON JSON_parse (Some (JStr t)) None = Inr v"
proof -
  from v obtain ts where tk: "tokenize t = Some ts" and pv: "parseValue [] ts = Inr v"
    by (auto simp: JSON_parse_def split: option.splits)
  from tk have tk': "tokenize (trim t) = Some ts" by (rule tokenize_trim)
  with pv have p: "JSON_parse (trim t) = Inr v" by (simp add: JSON_parse_def)
  have l: "looksLikeJSON (trim t)"
    using tk' pv trim_trimmed by (rule valid_json_looks_like_json)
  have n: "normalizeToJSON (trim t) = trim t"
    using valid_json_scan_unchanged [OF v] r by (simp add: normalizeToJSON_def)
  have "extractAndParse JSON_parse (trim t) = Inr v"
    using l n p by (simp add: extractAndParse_def trim_idem)
  then show ?thesis by (simp add: parseJSON_def parsedOf_def)
qed

subsection \<open>Valid JSON whose strings the rewrites change\<close>

text \<open>
  C1. Extraction of a valid strict-JSON text is to return what decoding the text
  returns, normalization changing nothing. The scan does change nothing
  (\<open>valid_json_scan_unchanged\<close>), and a valid text in which the two rewrites find
  nothing is extracted as it is decoded (\<open>valid_json_without_rewrite_matches\<close>). But
  the rewrites of lines 93 and 96 run over the whole scanned text, string contents
  included: \<^verbatim>\<open>["a,]"]\<close> is valid JSON and extraction returns the string without its
  comma; \<^verbatim>\<open>"{a:1}"\<close> is valid JSON and extraction raises the decoder's error.
\<close>

theorem valid_json_strings_rewritten:
  \<open>JSON_parse ''["a,]"]'' = Inr (JArr [JStr ''a,]'']) \<and>
   normalizeToJSON ''["a,]"]'' = ''["a]"]'' \<and>
   parseJSON JSON_parse (Some (JStr ''["a,]"]'')) None = Inr (JArr [JStr ''a]'']) \<and>
   JSON_parse ''"{a:1}"'' = Inr (JStr ''{a:1}'') \<and>
   normalizeToJSON ''"{a:1}"'' = ''"{"a":1}"'' \<and>
   parseJSON JSON_parse (Some (JStr ''"{a:1}"'')) None = Inl SyntaxError\<close>
proof -
  have a: \<open>JSON_parse ''["a,]"]'' = Inr (JArr [JStr ''a,]''])\<close>
    by code_simp
  have b: \<open>normalizeToJSON ''["a,]"]'' = ''["a]"]''\<close>
    by code_simp
  have c: \<open>parseJSON JSON_parse (Some (JStr ''["a,]"]'')) None = Inr (JArr [JStr ''a]''])\<close>
    by code_simp
  have d: \<open>JSON_parse ''"{a:1}"'' = Inr (JStr ''{a:1}'')\<close>
    by code_simp
  have e: \<open>normalizeToJSON ''"{a:1}"'' = ''"{"a":1}"''\<close>
    by code_simp
  have f: \<open>parseJSON JSON_parse (Some (JStr ''"{a:1}"'')) None = Inl SyntaxError\<close>
    by code_simp
  from a b c d e f show ?thesis by blast
qed

end
